theory Spec2Isabelle
  imports Main "HOL-Library.Monad_Syntax"
begin

section \<open>Device memory and launch configuration\<close>

text \<open>
  The kernels of \<^verbatim>\<open>gunrock/util/join.cuh\<close> receive raw device pointers and no lengths.
  An array behind such a pointer is modelled as the memory it points to, indexed from the
  pointer. Positions, edge ids, node ids and bitmasks are non-negative and are taken to fit
  their machine types, so they are natural numbers; the entries of the adjacency rule
  table have the signed type \<^verbatim>\<open>VertexId\<close> and are integers.
\<close>

type_synonym mem = "nat \<Rightarrow> nat"

text \<open>
  The sequential embedding is the launch \<^verbatim>\<open><<<1, 1>>>\<close>: one block of one thread, so
  that the grid-stride loops visit their indices in ascending order.
\<close>

definition gridDim_x :: nat where
  "gridDim_x = 1"

definition blockDim_x :: nat where
  "blockDim_x = 1"

definition blockIdx_x :: nat where
  "blockIdx_x = 0"

definition threadIdx_x :: nat where
  "threadIdx_x = 0"

definition STRIDE :: nat where
  "STRIDE = gridDim_x * blockDim_x"

definition thread_x :: nat where
  "thread_x = blockIdx_x * blockDim_x + threadIdx_x"

section \<open>The Join kernel\<close>

subsection \<open>The local tuple buffer\<close>

text \<open>
  \<^verbatim>\<open>unsigned long long edge_id[3];\<close> is a local array of three cells, not initialised.
  A cell is \<open>None\<close> until it is written. An access outside the three cells, or a read of
  a cell never written, is undefined behaviour in the source and the fault \<open>None\<close> here.
\<close>

type_synonym buffer = "nat option list"

definition edge_id_init :: buffer where
  "edge_id_init = [None, None, None]"

definition wr :: "buffer \<Rightarrow> nat \<Rightarrow> nat \<Rightarrow> buffer option" where
  "wr b i v = (if i < length b then Some (b[i := Some v]) else None)"

definition rd :: "buffer \<Rightarrow> nat \<Rightarrow> nat option" where
  "rd b i = (if i < length b then b ! i else None)"

subsection \<open>Size of the combination space\<close>

text \<open>
  \<^verbatim>\<open>size = pos[0]; for (i = 0; i < edges_query-1; i++) size *= (pos[i+1] - pos[i]);\<close>
  in \<^verbatim>\<open>unsigned long long\<close>: every product is taken modulo \<open>2 ^ 64\<close>.
\<close>

function size_loop :: "mem \<Rightarrow> nat \<Rightarrow> nat \<Rightarrow> nat \<Rightarrow> nat" where
  "size_loop pos edges_query i sz =
     (if i < edges_query - 1
      then size_loop pos edges_query (i + 1) ((sz * (pos (i + 1) - pos i)) mod 2 ^ 64)
      else sz)"
  by pat_completeness auto
termination
  by (relation "measure (\<lambda>(pos, edges_query, i, sz). edges_query - 1 - i)") auto

definition Join_size :: "mem \<Rightarrow> nat \<Rightarrow> nat" where
  "Join_size pos edges_query = size_loop pos edges_query 0 (pos 0 mod 2 ^ 64)"

subsection \<open>Decoding a tuple index\<close>

text \<open>
  The loop \<^verbatim>\<open>for (iter = edges_query-1; iter > 0; iter--)\<close> and the statement
  \<^verbatim>\<open>edge_id[iter] = edges[id]\<close> that follows it, where \<open>iter\<close> is 0. The third
  argument is \<open>iter\<close>, the fourth the source's \<^verbatim>\<open>id\<close>.
\<close>

fun decode :: "mem \<Rightarrow> mem \<Rightarrow> nat \<Rightarrow> nat \<Rightarrow> buffer \<Rightarrow> buffer option" where
  "decode pos edges 0 idx edge_id = wr edge_id 0 (edges idx)"
| "decode pos edges (Suc k) idx edge_id = do {
     b1 \<leftarrow> wr edge_id (Suc k) (pos k + idx mod (pos (Suc k) - pos k));
     p \<leftarrow> rd b1 (Suc k);
     b2 \<leftarrow> wr b1 (Suc k) (edges p);
     decode pos edges k (idx div (pos (Suc k) - pos k)) b2
   }"

subsection \<open>Validating a tuple\<close>

text \<open>C's remainder truncates towards zero: \<^verbatim>\<open>c % 2 == 1\<close> holds for positive odd \<open>c\<close> only.\<close>

definition c_rem :: "int \<Rightarrow> int \<Rightarrow> int" where
  "c_rem a b = a - b * (sgn a * sgn b * (\<bar>a\<bar> div \<bar>b\<bar>))"

text \<open>
  The body of the inner loop after the test for equal edge ids: \<open>True\<close> when one of its
  \<^verbatim>\<open>break\<close> statements is taken. \<open>old\<close> is \<^verbatim>\<open>edge_id[edge]\<close> and \<open>new\<close> is
  \<^verbatim>\<open>edge_id[iter+1]\<close>.
\<close>

definition rule_breaks :: "int \<Rightarrow> int \<Rightarrow> mem \<Rightarrow> mem \<Rightarrow> nat \<Rightarrow> nat \<Rightarrow> bool" where
  "rule_breaks c d froms tos old new =
     (if (if c \<noteq> 0
          then (if c_rem c 2 = 1 then froms old \<noteq> froms new else tos old \<noteq> froms new)
          else (froms new = froms old \<or> froms new = tos old))
      then True
      else (if d \<noteq> 0
            then (if c_rem d 2 = 1 then froms old \<noteq> tos new else tos old \<noteq> tos new)
            else (tos new = froms old \<or> tos new = tos old)))"

text \<open>
  \<^verbatim>\<open>for (edge = 0; edge < iter+1; edge++)\<close>; the result is the value of \<open>edge\<close> when
  the loop is left. The two cells compared first are the cells every later statement of
  the body reads again.
\<close>

function inner_loop ::
  "(nat \<Rightarrow> int) \<Rightarrow> mem \<Rightarrow> mem \<Rightarrow> buffer \<Rightarrow> nat \<Rightarrow> nat \<Rightarrow> nat option" where
  "inner_loop intersect froms tos edge_id iter edge =
     (if edge < iter + 1
      then do {
        new \<leftarrow> rd edge_id (iter + 1);
        old \<leftarrow> rd edge_id edge;
        if new = old then Some edge
        else if rule_breaks (intersect ((iter * (iter + 1) div 2 + edge) * 2))
                  (intersect ((iter * (iter + 1) div 2 + edge) * 2 + 1)) froms tos old new
        then Some edge
        else inner_loop intersect froms tos edge_id iter (edge + 1)
      }
      else Some edge)"
  by pat_completeness auto
termination
  by (relation "measure (\<lambda>(intersect, froms, tos, edge_id, iter, edge). iter + 1 - edge)") auto

text \<open>
  \<^verbatim>\<open>for (iter = 0; iter < edges_query-1; iter++)\<close>; the result is the value of \<open>iter\<close>
  when the loop is left.
\<close>

function outer_loop ::
  "(nat \<Rightarrow> int) \<Rightarrow> mem \<Rightarrow> mem \<Rightarrow> buffer \<Rightarrow> nat \<Rightarrow> nat \<Rightarrow> nat option" where
  "outer_loop intersect froms tos edge_id edges_query iter =
     (if iter < edges_query - 1
      then do {
        edge \<leftarrow> inner_loop intersect froms tos edge_id iter 0;
        if edge \<noteq> iter + 1 then Some iter
        else outer_loop intersect froms tos edge_id edges_query (iter + 1)
      }
      else Some iter)"
  by pat_completeness auto
termination
  by (relation "measure (\<lambda>(intersect, froms, tos, edge_id, edges_query, iter).
        edges_query - 1 - iter)") auto

subsection \<open>Emitting a match\<close>

record join_state =
  counts :: nat
  output_buf :: mem

text \<open>\<^verbatim>\<open>for (iter = 0; iter < edges_query; iter++) output[counts[0]*edges_query + iter] = edge_id[iter];\<close>\<close>

function emit_loop :: "buffer \<Rightarrow> nat \<Rightarrow> nat \<Rightarrow> nat \<Rightarrow> mem \<Rightarrow> mem option" where
  "emit_loop edge_id edges_query cnt iter out =
     (if iter < edges_query
      then do {
        v \<leftarrow> rd edge_id iter;
        emit_loop edge_id edges_query cnt (iter + 1) (out(cnt * edges_query + iter := v))
      }
      else Some out)"
  by pat_completeness auto
termination
  by (relation "measure (\<lambda>(edge_id, edges_query, cnt, iter, out). edges_query - iter)") auto

subsection \<open>The kernel\<close>

text \<open>
  One pass through the body of \<^verbatim>\<open>while (x < size)\<close>, for the tuple index \<open>x\<close>.
  \<^verbatim>\<open>edges_query - 1\<close> is read for at least one query edge, as every property below
  supposes.
\<close>

definition Join_body ::
  "nat \<Rightarrow> mem \<Rightarrow> (nat \<Rightarrow> int) \<Rightarrow> mem \<Rightarrow> mem \<Rightarrow> mem \<Rightarrow> nat \<Rightarrow> join_state
     \<Rightarrow> join_state option" where
  "Join_body edges_query pos intersect froms tos edges x st = do {
     edge_id \<leftarrow> decode pos edges (edges_query - 1) x edge_id_init;
     iter \<leftarrow> outer_loop intersect froms tos edge_id edges_query 0;
     if iter = edges_query - 1
     then do {
       out \<leftarrow> emit_loop edge_id edges_query (counts st) 0 (output_buf st);
       Some \<lparr>counts = counts st + 1, output_buf = out\<rparr>
     }
     else Some st
   }"

function Join_loop ::
  "nat \<Rightarrow> mem \<Rightarrow> (nat \<Rightarrow> int) \<Rightarrow> mem \<Rightarrow> mem \<Rightarrow> mem \<Rightarrow> nat \<Rightarrow> nat \<Rightarrow> join_state
     \<Rightarrow> join_state option" where
  "Join_loop edges_query pos intersect froms tos edges sz x st =
     (if x < sz
      then (case Join_body edges_query pos intersect froms tos edges x st of
              None \<Rightarrow> None
            | Some st' \<Rightarrow>
                Join_loop edges_query pos intersect froms tos edges sz (x + STRIDE) st')
      else Some st)"
  by pat_completeness auto
termination
  by (relation "measure (\<lambda>(edges_query, pos, intersect, froms, tos, edges, sz, x, st). sz - x)")
     (auto simp: STRIDE_def gridDim_x_def blockDim_x_def)

text \<open>The parameter \<^verbatim>\<open>edges_data\<close> of the kernel is not used by it.\<close>

definition Join ::
  "nat \<Rightarrow> nat \<Rightarrow> mem \<Rightarrow> (nat \<Rightarrow> int) \<Rightarrow> mem \<Rightarrow> mem \<Rightarrow> mem \<Rightarrow> join_state
     \<Rightarrow> join_state option" where
  "Join edges_data edges_query pos intersect froms tos edges st =
     Join_loop edges_query pos intersect froms tos edges (Join_size pos edges_query) thread_x st"

text \<open>The tuple a thread holds after decoding: the first \<open>edges_query\<close> cells of its buffer.\<close>

definition Join_tuple :: "nat \<Rightarrow> mem \<Rightarrow> mem \<Rightarrow> nat \<Rightarrow> nat list option" where
  "Join_tuple edges_query pos edges x = do {
     edge_id \<leftarrow> decode pos edges (edges_query - 1) x edge_id_init;
     those (take edges_query edge_id)
   }"

subsection \<open>What the specification says of the Join kernel\<close>

text \<open>
  The offset table is well formed when it does not decrease; the segment of query edge
  \<open>i\<close> is \<open>[seg_lo pos i, pos i)\<close>, with \<open>pos[-1] = 0\<close>.
\<close>

definition well_formed_pos :: "mem \<Rightarrow> nat \<Rightarrow> bool" where
  "well_formed_pos pos edges_query = (\<forall>i\<in>set [0..<edges_query - 1]. pos i \<le> pos (i + 1))"

definition seg_lo :: "mem \<Rightarrow> nat \<Rightarrow> nat" where
  "seg_lo pos i = (if i = 0 then 0 else pos (i - 1))"

definition seg_len :: "mem \<Rightarrow> nat \<Rightarrow> nat" where
  "seg_len pos i = pos i - seg_lo pos i"

primrec combination_space_size :: "mem \<Rightarrow> nat \<Rightarrow> nat" where
  "combination_space_size pos 0 = 1"
| "combination_space_size pos (Suc n) = combination_space_size pos n * seg_len pos n"

text \<open>
  What one entry of the rule table demands of an endpoint \<open>v\<close> of the later-placed data
  edge: a code of zero, that \<open>v\<close> differs from both endpoints of the earlier edge \<open>old\<close>;
  a nonzero code, that \<open>v\<close> equals the source of \<open>old\<close> (the code is odd) or its
  destination.
\<close>

definition endpoint_demand :: "int \<Rightarrow> mem \<Rightarrow> mem \<Rightarrow> nat \<Rightarrow> nat \<Rightarrow> bool" where
  "endpoint_demand code froms tos old v =
     (if code = 0 then v \<noteq> froms old \<and> v \<noteq> tos old
      else if c_rem code 2 = 1 then v = froms old
      else v = tos old)"

text \<open>
  The rule of a pair: the first entry speaks of the source of the later edge, the second
  of its destination.
\<close>

definition rule_satisfied :: "int \<Rightarrow> int \<Rightarrow> mem \<Rightarrow> mem \<Rightarrow> nat \<Rightarrow> nat \<Rightarrow> bool" where
  "rule_satisfied c d froms tos old new =
     (endpoint_demand c froms tos old (froms new) \<and> endpoint_demand d froms tos old (tos new))"

text \<open>
  The table has two entries for each pair of a later-placed query edge \<open>j\<close> and an
  earlier-placed one \<open>k < j\<close>, the pairs in triangular order.
\<close>

definition rule_index :: "nat \<Rightarrow> nat \<Rightarrow> nat" where
  "rule_index j k = ((j - 1) * j div 2 + k) * 2"

definition valid_match :: "(nat \<Rightarrow> int) \<Rightarrow> mem \<Rightarrow> mem \<Rightarrow> nat list \<Rightarrow> bool" where
  "valid_match intersect froms tos t =
     (\<forall>j\<in>set [0..<length t]. \<forall>k\<in>set [0..<j].
        t ! j \<noteq> t ! k \<and>
        rule_satisfied (intersect (rule_index j k)) (intersect (rule_index j k + 1))
          froms tos (t ! k) (t ! j))"

text \<open>
  Recording a match: the ids of the tuple go to the block of the output buffer that the
  counter names, and the counter goes up by one.
\<close>

definition record_match :: "nat list \<Rightarrow> join_state \<Rightarrow> join_state" where
  "record_match t st =
     \<lparr>counts = counts st + 1,
      output_buf = (\<lambda>a. if counts st * length t \<le> a \<and> a < counts st * length t + length t
                        then t ! (a - counts st * length t) else output_buf st a)\<rparr>"

text \<open>
  Re-encoding positions \<open>p 0, \<dots>, p k\<close> of the candidate array: multiply back out by the
  segment lengths, each position taken relative to the start of its segment.
\<close>

fun encode :: "mem \<Rightarrow> nat \<Rightarrow> (nat \<Rightarrow> nat) \<Rightarrow> nat" where
  "encode pos 0 p = p 0"
| "encode pos (Suc k) p = encode pos k p * seg_len pos (Suc k) + (p (Suc k) - seg_lo pos (Suc k))"

subsection \<open>Auxiliary notions for the proofs\<close>

text \<open>The value the decoding loop leaves in cell \<open>j\<close>, as a function.\<close>

fun cand :: "mem \<Rightarrow> mem \<Rightarrow> nat \<Rightarrow> nat \<Rightarrow> nat \<Rightarrow> nat" where
  "cand pos edges 0 idx j = edges idx"
| "cand pos edges (Suc k) idx j =
     (if j = Suc k then edges (pos k + idx mod (pos (Suc k) - pos k))
      else cand pos edges k (idx div (pos (Suc k) - pos k)) j)"

text \<open>The inner loop passes the pair of \<open>iter + 1\<close> and \<open>edge\<close> without a \<^verbatim>\<open>break\<close>.\<close>

definition pair_ok :: "(nat \<Rightarrow> int) \<Rightarrow> mem \<Rightarrow> mem \<Rightarrow> (nat \<Rightarrow> nat) \<Rightarrow> nat \<Rightarrow> nat \<Rightarrow> bool" where
  "pair_ok intersect froms tos t iter edge =
     (t (iter + 1) \<noteq> t edge \<and>
      \<not> rule_breaks (intersect ((iter * (iter + 1) div 2 + edge) * 2))
          (intersect ((iter * (iter + 1) div 2 + edge) * 2 + 1)) froms tos (t edge) (t (iter + 1)))"

text \<open>A finite array as memory: the cells past its end hold 0.\<close>

definition mem_of :: "nat list \<Rightarrow> mem" where
  "mem_of xs = (\<lambda>i. if i < length xs then xs ! i else 0)"

section \<open>The Update kernel\<close>

text \<open>
  \<^verbatim>\<open>while (x < size) { if (x == size-1 || indices[x]/edges_data < indices[x+1]/edges_data)
  pos[indices[x]/edges_data] = x+1; __syncthreads(); indices[x] %= edges_data; x += STRIDE; }\<close>
  The state is the pair of the candidate array and the offset table. With one thread the
  barrier does nothing. The division needs \<open>0 < edges_data\<close>.
\<close>

function Update_loop :: "nat \<Rightarrow> nat \<Rightarrow> nat \<Rightarrow> mem \<times> mem \<Rightarrow> mem \<times> mem" where
  "Update_loop edges_data sz x (indices, pos) =
     (if x < sz
      then Update_loop edges_data sz (x + STRIDE)
             (indices(x := indices x mod edges_data),
              if x = sz - 1 \<or> indices x div edges_data < indices (x + 1) div edges_data
              then pos(indices x div edges_data := x + 1) else pos)
      else (indices, pos))"
  by pat_completeness auto
termination
  by (relation "measure (\<lambda>(edges_data, sz, x, st). sz - x)")
     (auto simp: STRIDE_def gridDim_x_def blockDim_x_def)

definition Update :: "mem \<Rightarrow> mem \<Rightarrow> nat \<Rightarrow> mem \<times> mem" where
  "Update indices pos edges_data = Update_loop edges_data (pos 0) thread_x (indices, pos)"

text \<open>The tag of an entry of the candidate array: its encoded query-edge index.\<close>

definition tag :: "nat \<Rightarrow> mem \<Rightarrow> nat \<Rightarrow> nat" where
  "tag edges_data indices x = indices x div edges_data"

definition boundary :: "nat \<Rightarrow> nat \<Rightarrow> mem \<Rightarrow> nat \<Rightarrow> bool" where
  "boundary edges_data sz indices x =
     (x = sz - 1 \<or> indices x div edges_data < indices (x + 1) div edges_data)"

text \<open>
  What the specification asks of the input of \<^verbatim>\<open>Update\<close>: the first \<open>n\<close> entries of
  the candidate array are sorted by tag, every query edge owns at least one of them, and
  no tag is outside the query edges.
\<close>

definition well_tagged :: "nat \<Rightarrow> nat \<Rightarrow> mem \<Rightarrow> nat \<Rightarrow> bool" where
  "well_tagged edges_data edges_query indices n =
     (sorted (map (tag edges_data indices) [0..<n]) \<and>
      (\<forall>i\<in>set [0..<edges_query]. \<exists>y\<in>set [0..<n]. tag edges_data indices y = i) \<and>
      (\<forall>y\<in>set [0..<n]. tag edges_data indices y < edges_query))"

section \<open>The Label kernel\<close>

text \<open>
  The bitmask \<^verbatim>\<open>d_c_set\<close> has the signed type \<^verbatim>\<open>VertexId\<close>, so its entries are
  integers. \<^verbatim>\<open>(d_c_set[froms_data[x]] >> src) % 2 == 1\<close> shifts arithmetically and takes
  C's remainder: for a negative entry the remainder is \<open>-1\<close> or 0 and the test fails.
  The index \<^verbatim>\<open>x + i*edges_data/2\<close> is \<open>x + (i * edges_data) div 2\<close>: in C the product
  is taken first.
\<close>

function Label_for ::
  "mem \<Rightarrow> mem \<Rightarrow> mem \<Rightarrow> mem \<Rightarrow> (nat \<Rightarrow> int) \<Rightarrow> nat \<Rightarrow> nat \<Rightarrow> nat \<Rightarrow> nat \<Rightarrow> mem \<Rightarrow> mem" where
  "Label_for froms_data tos_data froms_query tos_query d_c_set edges_data edges_query x i label =
     (if i < edges_query
      then Label_for froms_data tos_data froms_query tos_query d_c_set edges_data edges_query x
             (i + 1)
             (if c_rem (drop_bit (froms_query i) (d_c_set (froms_data x))) 2 = 1 \<and>
                 c_rem (drop_bit (tos_query i) (d_c_set (tos_data x))) 2 = 1
              then label(x + i * edges_data div 2 := 1) else label)
      else label)"
  by pat_completeness auto
termination
  by (relation "measure (\<lambda>(froms_data, tos_data, froms_query, tos_query, d_c_set, edges_data,
        edges_query, x, i, label). edges_query - i)") auto

function Label_loop ::
  "mem \<Rightarrow> mem \<Rightarrow> mem \<Rightarrow> mem \<Rightarrow> (nat \<Rightarrow> int) \<Rightarrow> nat \<Rightarrow> nat \<Rightarrow> nat \<Rightarrow> nat \<Rightarrow> mem \<Rightarrow> mem" where
  "Label_loop froms_data tos_data froms_query tos_query d_c_set edges_data edges_query sz x label =
     (if x < sz
      then Label_loop froms_data tos_data froms_query tos_query d_c_set edges_data edges_query sz
             (x + STRIDE)
             (Label_for froms_data tos_data froms_query tos_query d_c_set edges_data edges_query
                x 0 label)
      else label)"
  by pat_completeness auto
termination
  by (relation "measure (\<lambda>(froms_data, tos_data, froms_query, tos_query, d_c_set, edges_data,
        edges_query, sz, x, label). sz - x)")
     (auto simp: STRIDE_def gridDim_x_def blockDim_x_def)

text \<open>The bound of the loop is \<^verbatim>\<open>size = d_query_row[0]\<close>.\<close>

definition Label ::
  "mem \<Rightarrow> mem \<Rightarrow> mem \<Rightarrow> mem \<Rightarrow> (nat \<Rightarrow> int) \<Rightarrow> mem \<Rightarrow> mem \<Rightarrow> nat \<Rightarrow> nat \<Rightarrow> mem" where
  "Label froms_data tos_data froms_query tos_query d_c_set label d_query_row edges_data
     edges_query =
     Label_loop froms_data tos_data froms_query tos_query d_c_set edges_data edges_query
       (d_query_row 0) thread_x label"

text \<open>What the specification asks of a data edge \<open>x\<close> and a query edge \<open>i\<close>.\<close>

definition feasible ::
  "mem \<Rightarrow> mem \<Rightarrow> mem \<Rightarrow> mem \<Rightarrow> (nat \<Rightarrow> int) \<Rightarrow> nat \<Rightarrow> nat \<Rightarrow> bool" where
  "feasible froms_data tos_data froms_query tos_query d_c_set x i =
     (bit (d_c_set (froms_data x)) (froms_query i) \<and> bit (d_c_set (tos_data x)) (tos_query i))"

section \<open>The problem structure \<^verbatim>\<open>SMProblem\<close>\<close>

text \<open>
  \<^verbatim>\<open>gunrock/app/sm/sm_problem.cuh\<close>. The device is outside the program: what an
  allocation, a transfer or a device call returns is given by a function from the
  operation to its status. The statements of \<^verbatim>\<open>Init\<close> whose status is tested
  (\<^verbatim>\<open>if (retval = \<dots>) return retval;\<close>) are \<open>Checked\<close>; kernel launches and the
  calls whose result is dropped are \<open>Unchecked\<close>. The current device is taken to be
  device 0, so that \<^verbatim>\<open>data_slices[gpu]\<close> is \<^verbatim>\<open>data_slices[0]\<close>.
\<close>

type_synonym cudaError_t = nat

definition cudaSuccess :: cudaError_t where
  "cudaSuccess = 0"

datatype graph_name = Query | Data

text \<open>The arrays of a data slice; \<open>arr_labels\<close> is the member \<^verbatim>\<open>labels\<close>, and so on.\<close>

datatype array_name =
    arr_labels | arr_d_query_labels | arr_d_data_labels | arr_d_query_nodeIDs | arr_d_query_edgeIDs
  | arr_d_query_row | arr_d_query_col | arr_d_edge_weights | arr_d_c_set | arr_d_query_degrees
  | arr_d_data_degrees | arr_d_temp_keys | arr_d_vertex_cover

datatype device_op =
    ProblemBase_Init graph_name
  | cudaGetDevice
  | cudaMalloc_d_data_slices
  | DataSlice_Init graph_name
  | Allocate array_name nat
  | Move_HOST_DEVICE array_name
  | Move_DEVICE_HOST array_name
  | MemsetKernel array_name
  | MemsetIdxKernel array_name
  | SetDevice

text \<open>\<open>New_DataSlice\<close> is the host statement \<^verbatim>\<open>data_slices[0] = new DataSlice\<close>.\<close>

datatype stmt = Checked device_op | Unchecked device_op | New_DataSlice

record csr =
  csr_nodes :: nat
  csr_edges :: nat

record data_slice =
  ds_nodes_data :: nat
  ds_nodes_query :: nat
  ds_edges_data :: nat
  ds_edges_query :: nat
  ds_vertex_cover_size :: nat

text \<open>The constructor of \<^verbatim>\<open>DataSlice\<close> sets every size to 0.\<close>

definition DataSlice_default :: data_slice where
  "DataSlice_default =
     \<lparr>ds_nodes_data = 0, ds_nodes_query = 0, ds_edges_data = 0, ds_edges_query = 0,
      ds_vertex_cover_size = 0\<rparr>"

text \<open>
  \<open>sm_data_slice\<close> is the slice \<^verbatim>\<open>data_slices[0]\<close> points to; it is \<open>None\<close> while
  that pointer is not set.
\<close>

record sm_problem =
  sm_num_gpus :: int
  sm_nodes_query :: nat
  sm_edges_query :: nat
  sm_nodes_data :: nat
  sm_edges_data :: nat
  sm_vertex_cover_size :: nat
  sm_num_matches :: nat
  sm_data_slice :: "data_slice option"
  sm_d_c_set :: "bool list"

text \<open>
  A sequence of statements: a checked statement that fails returns its status at once.
  The state is the slice and the list of the statements performed, in order.
\<close>

fun run_stmts ::
  "(device_op \<Rightarrow> cudaError_t) \<Rightarrow> stmt list \<Rightarrow> data_slice option \<Rightarrow> stmt list
     \<Rightarrow> cudaError_t \<times> data_slice option \<times> stmt list" where
  "run_stmts dev [] ds performed = (cudaSuccess, ds, performed)"
| "run_stmts dev (Checked op # rest) ds performed =
     (if dev op \<noteq> cudaSuccess then (dev op, ds, performed @ [Checked op])
      else run_stmts dev rest ds (performed @ [Checked op]))"
| "run_stmts dev (Unchecked op # rest) ds performed =
     run_stmts dev rest ds (performed @ [Unchecked op])"
| "run_stmts dev (New_DataSlice # rest) ds performed =
     run_stmts dev rest (Some DataSlice_default) (performed @ [New_DataSlice])"

text \<open>The statements of \<^verbatim>\<open>Init\<close> under \<^verbatim>\<open>if (num_gpus <= 1)\<close>, in the order of the source.\<close>

definition Init_stmts :: "nat \<Rightarrow> nat \<Rightarrow> nat \<Rightarrow> nat \<Rightarrow> stmt list" where
  "Init_stmts nodes_query edges_query nodes_data edges_data =
     [Checked cudaGetDevice,
      New_DataSlice,
      Checked cudaMalloc_d_data_slices,
      Unchecked (DataSlice_Init Query),
      Unchecked (DataSlice_Init Data),
      Checked (Allocate arr_labels nodes_query),
      Checked (Allocate arr_d_query_labels nodes_query),
      Checked (Allocate arr_d_data_labels nodes_data),
      Checked (Allocate arr_d_query_nodeIDs nodes_query),
      Checked (Allocate arr_d_query_edgeIDs edges_query),
      Checked (Allocate arr_d_query_row (nodes_query + 1)),
      Checked (Allocate arr_d_query_col edges_query),
      Checked (Allocate arr_d_edge_weights edges_query),
      Checked (Allocate arr_d_c_set (nodes_query * nodes_data)),
      Checked (Allocate arr_d_query_degrees nodes_query),
      Checked (Allocate arr_d_data_degrees nodes_data),
      Checked (Allocate arr_d_temp_keys nodes_data),
      Checked (Allocate arr_d_vertex_cover nodes_query),
      Unchecked (MemsetKernel arr_labels),
      Checked (Move_HOST_DEVICE arr_d_query_labels),
      Checked (Move_HOST_DEVICE arr_d_data_labels),
      Checked (Move_HOST_DEVICE arr_d_vertex_cover),
      Unchecked (MemsetIdxKernel arr_d_query_nodeIDs),
      Unchecked (MemsetIdxKernel arr_d_query_edgeIDs),
      Checked (Move_HOST_DEVICE arr_d_query_row),
      Checked (Move_HOST_DEVICE arr_d_query_col),
      Unchecked (MemsetKernel arr_d_edge_weights),
      Unchecked (MemsetKernel arr_d_c_set),
      Unchecked (MemsetKernel arr_d_temp_keys),
      Checked (Move_HOST_DEVICE arr_d_query_degrees),
      Checked (Move_HOST_DEVICE arr_d_data_degrees)]"

text \<open>
  How a call of \<^verbatim>\<open>Init\<close> ends: it returns a status, or \<^verbatim>\<open>new DataSlice*[num_gpus]\<close>
  throws for a negative length, or a cell of an array of length 0 is written.
\<close>

datatype outcome = Returns cudaError_t | Throws_bad_array_new_length | Out_of_bounds_write

text \<open>The two calls of \<^verbatim>\<open>ProblemBase::Init\<close> that come first; their result is dropped.\<close>

definition Init_base :: "stmt list" where
  "Init_base = [Unchecked (ProblemBase_Init Query), Unchecked (ProblemBase_Init Data)]"

text \<open>
  \<^verbatim>\<open>Init\<close>. \<^verbatim>\<open>sizeof(h_vertex_cover)\<close> is the size of a pointer and
  \<^verbatim>\<open>sizeof(h_vertex_cover[0])\<close> the size of the template parameter \<^verbatim>\<open>VertexId\<close>;
  neither is fixed by the source, and both are parameters. \<open>streams_given\<close> says that
  the argument \<^verbatim>\<open>streams\<close> is not \<^verbatim>\<open>NULL\<close>. The result is how the call ends, the
  problem structure, and the statements performed.

  \<^verbatim>\<open>data_slices = new DataSlice*[num_gpus]\<close> throws for a negative \<^verbatim>\<open>num_gpus\<close> and
  leaves the pointer to the slice unset otherwise. With \<^verbatim>\<open>num_gpus == 0\<close> the arrays
  have no cell: \<^verbatim>\<open>streams[0] = 0\<close> (when \<^verbatim>\<open>streams\<close> is \<^verbatim>\<open>NULL\<close>) and
  \<^verbatim>\<open>data_slices[0] = new DataSlice\<close> (after \<^verbatim>\<open>cudaGetDevice\<close> has succeeded)
  write outside them.
\<close>

definition Init ::
  "(device_op \<Rightarrow> cudaError_t) \<Rightarrow> nat \<Rightarrow> nat \<Rightarrow> csr \<Rightarrow> csr \<Rightarrow> int list \<Rightarrow> int \<Rightarrow> bool
     \<Rightarrow> sm_problem \<Rightarrow> outcome \<times> sm_problem \<times> stmt list" where
  "Init dev sizeof_pointer sizeof_VertexId graph_query graph_data h_vertex_cover num_gpus_arg
     streams_given p =
     (let p1 = p\<lparr>sm_num_gpus := num_gpus_arg,
                 sm_nodes_query := csr_nodes graph_query,
                 sm_edges_query := csr_edges graph_query,
                 sm_nodes_data := csr_nodes graph_data,
                 sm_edges_data := csr_edges graph_data,
                 sm_vertex_cover_size := sizeof_pointer div sizeof_VertexId\<rparr>
      in if num_gpus_arg < 0 then (Throws_bad_array_new_length, p1, Init_base)
         else if num_gpus_arg = 0
         then (if \<not> streams_given
               then (Out_of_bounds_write, p1\<lparr>sm_data_slice := None\<rparr>, Init_base)
               else if dev cudaGetDevice \<noteq> cudaSuccess
               then (Returns (dev cudaGetDevice), p1\<lparr>sm_data_slice := None\<rparr>,
                     Init_base @ [Checked cudaGetDevice])
               else (Out_of_bounds_write, p1\<lparr>sm_data_slice := None\<rparr>,
                     Init_base @ [Checked cudaGetDevice]))
         else if num_gpus_arg \<le> 1
         then (case run_stmts dev
                      (Init_stmts (sm_nodes_query p1) (sm_edges_query p1) (sm_nodes_data p1)
                         (sm_edges_data p1)) None Init_base of
                 (retval, ds, performed) \<Rightarrow>
                   if retval \<noteq> cudaSuccess
                   then (Returns retval, p1\<lparr>sm_data_slice := ds\<rparr>, performed)
                   else (Returns retval,
                         p1\<lparr>sm_data_slice :=
                              Some \<lparr>ds_nodes_data = sm_nodes_data p1,
                                    ds_nodes_query = sm_nodes_query p1,
                                    ds_edges_data = sm_edges_data p1,
                                    ds_edges_query = sm_edges_query p1,
                                    ds_vertex_cover_size = sm_vertex_cover_size p1\<rparr>\<rparr>,
                         performed))
         else (Returns cudaSuccess, p1\<lparr>sm_data_slice := None\<rparr>, Init_base))"

text \<open>The statements of a sequence whose status is tested.\<close>

fun checked :: "stmt list \<Rightarrow> device_op list" where
  "checked [] = []"
| "checked (Checked op # rest) = op # checked rest"
| "checked (Unchecked op # rest) = checked rest"
| "checked (New_DataSlice # rest) = checked rest"

text \<open>The device operation of a statement, and the operations that allocate or transfer.\<close>

fun op_of :: "stmt \<Rightarrow> device_op option" where
  "op_of (Checked op) = Some op"
| "op_of (Unchecked op) = Some op"
| "op_of New_DataSlice = None"

fun is_alloc_or_transfer :: "device_op \<Rightarrow> bool" where
  "is_alloc_or_transfer cudaMalloc_d_data_slices = True"
| "is_alloc_or_transfer (Allocate a n) = True"
| "is_alloc_or_transfer (Move_HOST_DEVICE a) = True"
| "is_alloc_or_transfer op = False"

text \<open>The slice after a sequence of statements has been performed.\<close>

fun slice_after :: "stmt list \<Rightarrow> data_slice option \<Rightarrow> data_slice option" where
  "slice_after [] ds = ds"
| "slice_after (New_DataSlice # rest) ds = slice_after rest (Some DataSlice_default)"
| "slice_after (s # rest) ds = slice_after rest ds"

text \<open>
  \<^verbatim>\<open>Extract\<close>. The result is the status, the problem structure and the host buffer
  \<^verbatim>\<open>h_c_set\<close>. A transfer that fails is taken to leave the host buffer as it was.
\<close>

definition Extract ::
  "(device_op \<Rightarrow> cudaError_t) \<Rightarrow> sm_problem \<Rightarrow> bool list \<Rightarrow> cudaError_t \<times> sm_problem \<times> bool list" where
  "Extract dev p h_c_set =
     (if sm_num_gpus p = 1
      then (if dev SetDevice \<noteq> cudaSuccess then (dev SetDevice, p, h_c_set)
            else if dev (Move_DEVICE_HOST arr_d_c_set) \<noteq> cudaSuccess
            then (dev (Move_DEVICE_HOST arr_d_c_set), p, h_c_set)
            else (cudaSuccess, p\<lparr>sm_num_matches := 0\<rparr>, sm_d_c_set p))
      else (cudaSuccess, p, h_c_set))"


section \<open>A small instance\<close>

text \<open>
  A data graph with the edges \<open>0: 0 \<rightarrow> 1\<close>, \<open>1: 1 \<rightarrow> 2\<close> and \<open>2: 2 \<rightarrow> 0\<close>, and a query
  path of two edges: the source of the second query edge is the destination of the first
  (code 2), its destination is a new node (code 0). Query edge 0 has the candidates
  \<open>0, 1\<close>, query edge 1 the candidates \<open>1, 2\<close>.
\<close>

definition ex_pos :: mem where
  "ex_pos = mem_of [2, 4]"

definition ex_edges :: mem where
  "ex_edges = mem_of [0, 1, 1, 2]"

definition ex_froms :: mem where
  "ex_froms = mem_of [0, 1, 2]"

definition ex_tos :: mem where
  "ex_tos = mem_of [1, 2, 0]"

definition ex_intersect :: "nat \<Rightarrow> int" where
  "ex_intersect = (\<lambda>i. if i = 0 then 2 else 0)"

definition ex_state :: join_state where
  "ex_state = \<lparr>counts = 0, output_buf = (\<lambda>a. 0)\<rparr>"

text \<open>
  The candidate array of the same instance before compaction, with three data edges:
  the entries carry the tags \<open>0, 0, 1, 1\<close>, and \<open>pos[0]\<close> holds the length 4.
\<close>

definition ex_indices :: mem where
  "ex_indices = mem_of [0, 1, 4, 5]"

definition ex_pos0 :: mem where
  "ex_pos0 = mem_of [4, 0]"

text \<open>
  A table of three segments of \<open>2 ^ 22\<close> candidates each, with the product \<open>2 ^ 66\<close> of
  the segment lengths; every data edge \<open>e\<close> goes from the node \<open>2 * e\<close> to the node
  \<open>2 * e + 1\<close>, every position holds the data edge of its own number, and no two query
  edges share a node (every code is 0).
\<close>

definition ovf_pos :: mem where
  "ovf_pos = mem_of [4194304, 8388608, 12582912]"

definition ovf_edges :: mem where
  "ovf_edges = (\<lambda>i. i)"

definition ovf_froms :: mem where
  "ovf_froms = (\<lambda>e. 2 * e)"

definition ovf_tos :: mem where
  "ovf_tos = (\<lambda>e. 2 * e + 1)"

definition ovf_intersect :: "nat \<Rightarrow> int" where
  "ovf_intersect = (\<lambda>i. 0)"

text \<open>
  An input of \<^verbatim>\<open>Label\<close>: a data graph of two edges \<open>0 \<rightarrow> 1\<close> and \<open>1 \<rightarrow> 0\<close> and the
  query edge \<open>0 \<rightarrow> 1\<close>; data node 0 is feasible for query node 0 and data node 1 for
  query node 1. \<open>exA_query_row\<close> is the row-offset array of the query graph, as
  \<^verbatim>\<open>Init\<close> copies it to \<^verbatim>\<open>d_query_row\<close>; it starts with 0.
\<close>

definition exA_froms_data :: mem where
  "exA_froms_data = mem_of [0, 1]"

definition exA_tos_data :: mem where
  "exA_tos_data = mem_of [1, 0]"

definition exA_froms_query :: mem where
  "exA_froms_query = mem_of [0]"

definition exA_tos_query :: mem where
  "exA_tos_query = mem_of [1]"

definition exA_c_set :: "nat \<Rightarrow> int" where
  "exA_c_set = (\<lambda>v. if v = 0 then 1 else if v = 1 then 2 else 0)"

definition exA_query_row :: mem where
  "exA_query_row = mem_of [0, 1, 1]"

definition exA_label :: mem where
  "exA_label = (\<lambda>a. 0)"

text \<open>
  The problem structure after the default constructor, a query graph of two nodes and
  one edge, a data graph of three nodes and three edges, a device on which every
  operation succeeds, a device on which the allocation of the six cells of
  \<^verbatim>\<open>d_c_set\<close> fails with the status 2, and a device on which the transfer of the row
  offsets fails with the status 11.
\<close>

definition SMProblem_default :: sm_problem where
  "SMProblem_default =
     \<lparr>sm_num_gpus = 0, sm_nodes_query = 0, sm_edges_query = 0, sm_nodes_data = 0,
      sm_edges_data = 0, sm_vertex_cover_size = 0, sm_num_matches = 0,
      sm_data_slice = None, sm_d_c_set = []\<rparr>"

definition ex_query :: csr where
  "ex_query = \<lparr>csr_nodes = 2, csr_edges = 1\<rparr>"

definition ex_data :: csr where
  "ex_data = \<lparr>csr_nodes = 3, csr_edges = 3\<rparr>"

definition dev_ok :: "device_op \<Rightarrow> cudaError_t" where
  "dev_ok = (\<lambda>op. cudaSuccess)"

definition dev_out_of_memory :: "device_op \<Rightarrow> cudaError_t" where
  "dev_out_of_memory = (\<lambda>op. if op = Allocate arr_d_c_set 6 then 2 else cudaSuccess)"

definition dev_copy_fails :: "device_op \<Rightarrow> cudaError_t" where
  "dev_copy_fails = (\<lambda>op. if op = Move_HOST_DEVICE arr_d_query_row then 11 else cudaSuccess)"

definition ex_problem :: sm_problem where
  "ex_problem = SMProblem_default\<lparr>sm_num_gpus := 1, sm_num_matches := 5,
     sm_d_c_set := [True, False]\<rparr>"

section \<open>Properties of the Join kernel\<close>

declare size_loop.simps [simp del] inner_loop.simps [simp del] outer_loop.simps [simp del]
  emit_loop.simps [simp del] Join_loop.simps [simp del] Update_loop.simps [simp del]
  Label_for.simps [simp del] Label_loop.simps [simp del]

lemma decode_cells:
  "k < length b \<Longrightarrow>
   \<exists>b'. decode pos edges k idx b = Some b' \<and> length b' = length b \<and>
        (\<forall>j\<le>k. b' ! j = Some (cand pos edges k idx j)) \<and>
        (\<forall>j. k < j \<longrightarrow> j < length b \<longrightarrow> b' ! j = b ! j)"
proof (induction k arbitrary: idx b)
  case 0
  then show ?case by (simp add: wr_def)
next
  case (Suc k)
  let ?b2 = "b[Suc k := Some (edges (pos k + idx mod (pos (Suc k) - pos k)))]"
  have step: "decode pos edges (Suc k) idx b =
      decode pos edges k (idx div (pos (Suc k) - pos k)) ?b2"
    using Suc.prems by (simp add: wr_def rd_def)
  have "k < length ?b2" using Suc.prems by simp
  from Suc.IH [OF this, of "idx div (pos (Suc k) - pos k)"]
  obtain b' where b': "decode pos edges k (idx div (pos (Suc k) - pos k)) ?b2 = Some b'"
    "length b' = length ?b2"
    "\<forall>j\<le>k. b' ! j = Some (cand pos edges k (idx div (pos (Suc k) - pos k)) j)"
    "\<forall>j. k < j \<longrightarrow> j < length ?b2 \<longrightarrow> b' ! j = ?b2 ! j"
    by blast
  have "\<forall>j\<le>Suc k. b' ! j = Some (cand pos edges (Suc k) idx j)"
  proof (intro allI impI)
    fix j assume "j \<le> Suc k"
    show "b' ! j = Some (cand pos edges (Suc k) idx j)"
    proof (cases "j = Suc k")
      case True
      then show ?thesis using b'(4) Suc.prems by simp
    next
      case False
      with \<open>j \<le> Suc k\<close> have "j \<le> k" by simp
      then show ?thesis using b'(3) False by simp
    qed
  qed
  moreover have "\<forall>j. Suc k < j \<longrightarrow> j < length b \<longrightarrow> b' ! j = b ! j"
    using b'(4) by simp
  ultimately show ?case using step b'(1,2) by simp
qed

lemma inner_loop_result:
  "\<forall>j\<le>iter + 1. rd b j = Some (t j) \<Longrightarrow> edge \<le> iter + 1 \<Longrightarrow>
   \<exists>r. inner_loop intersect froms tos b iter edge = Some r \<and>
       (r = iter + 1 \<longleftrightarrow> (\<forall>k. edge \<le> k \<and> k \<le> iter \<longrightarrow> pair_ok intersect froms tos t iter k))"
proof (induction intersect froms tos b iter edge rule: inner_loop.induct)
  case (1 intersect froms tos b iter edge)
  show ?case
  proof (cases "edge < iter + 1")
    case False
    with "1.prems" have "edge = iter + 1" by simp
    then show ?thesis by (subst inner_loop.simps) auto
  next
    case True
    have rn: "rd b (iter + 1) = Some (t (iter + 1))" and ro: "rd b edge = Some (t edge)"
      using "1.prems" True by auto
    show ?thesis
    proof (cases "pair_ok intersect froms tos t iter edge")
      case False
      then have "inner_loop intersect froms tos b iter edge = Some edge"
        using True rn ro by (subst inner_loop.simps) (auto simp: pair_ok_def)
      moreover have "\<not> (\<forall>k. edge \<le> k \<and> k \<le> iter \<longrightarrow> pair_ok intersect froms tos t iter k)"
        using False True by auto
      ultimately show ?thesis using True by simp
    next
      case ok: True
      then have step: "inner_loop intersect froms tos b iter edge =
          inner_loop intersect froms tos b iter (edge + 1)"
        using True rn ro by (subst inner_loop.simps) (auto simp: pair_ok_def)
      have "\<exists>r. inner_loop intersect froms tos b iter (edge + 1) = Some r \<and>
         (r = iter + 1 \<longleftrightarrow> (\<forall>k. edge + 1 \<le> k \<and> k \<le> iter \<longrightarrow> pair_ok intersect froms tos t iter k))"
        using "1.IH" [OF True rn ro] ok "1.prems" True by (auto simp: pair_ok_def)
      moreover have "(\<forall>k. edge + 1 \<le> k \<and> k \<le> iter \<longrightarrow> pair_ok intersect froms tos t iter k)
          \<longleftrightarrow> (\<forall>k. edge \<le> k \<and> k \<le> iter \<longrightarrow> pair_ok intersect froms tos t iter k)"
        using ok by (metis Suc_eq_plus1 Suc_leI le_neq_implies_less Suc_leD)
      ultimately show ?thesis using step by simp
    qed
  qed
qed


lemma outer_loop_result:
  "\<forall>j<edges_query. rd b j = Some (t j) \<Longrightarrow> iter \<le> edges_query - 1 \<Longrightarrow>
   \<exists>r. outer_loop intersect froms tos b edges_query iter = Some r \<and>
       (r = edges_query - 1 \<longleftrightarrow>
        (\<forall>j. iter \<le> j \<and> j < edges_query - 1 \<longrightarrow> (\<forall>k\<le>j. pair_ok intersect froms tos t j k)))"
proof (induction intersect froms tos b edges_query iter rule: outer_loop.induct)
  case (1 intersect froms tos b edges_query iter)
  show ?case
  proof (cases "iter < edges_query - 1")
    case False
    with "1.prems" have "iter = edges_query - 1" by simp
    then show ?thesis by (subst outer_loop.simps) auto
  next
    case True
    then have cells: "\<forall>j\<le>iter + 1. rd b j = Some (t j)"
      using "1.prems"(1) by auto
    from inner_loop_result [OF cells, of 0 intersect froms tos]
    obtain e where e: "inner_loop intersect froms tos b iter 0 = Some e"
      "e = iter + 1 \<longleftrightarrow> (\<forall>k. 0 \<le> k \<and> k \<le> iter \<longrightarrow> pair_ok intersect froms tos t iter k)"
      by auto
    show ?thesis
    proof (cases "e = iter + 1")
      case False
      then have "outer_loop intersect froms tos b edges_query iter = Some iter"
        using True e(1) by (subst outer_loop.simps) simp
      moreover have "\<not> (\<forall>j. iter \<le> j \<and> j < edges_query - 1 \<longrightarrow>
          (\<forall>k\<le>j. pair_ok intersect froms tos t j k))"
        using False e(2) True by auto
      ultimately show ?thesis using True by simp
    next
      case ok: True
      then have step: "outer_loop intersect froms tos b edges_query iter =
          outer_loop intersect froms tos b edges_query (iter + 1)"
        using True e(1) by (subst outer_loop.simps) simp
      have here: "\<forall>k\<le>iter. pair_ok intersect froms tos t iter k"
        using ok e(2) by simp
      have "\<exists>r. outer_loop intersect froms tos b edges_query (iter + 1) = Some r \<and>
         (r = edges_query - 1 \<longleftrightarrow>
          (\<forall>j. iter + 1 \<le> j \<and> j < edges_query - 1 \<longrightarrow> (\<forall>k\<le>j. pair_ok intersect froms tos t j k)))"
        using "1.IH" [OF True e(1)] ok "1.prems" True by auto
      moreover have "(\<forall>j. iter + 1 \<le> j \<and> j < edges_query - 1 \<longrightarrow>
            (\<forall>k\<le>j. pair_ok intersect froms tos t j k))
          \<longleftrightarrow> (\<forall>j. iter \<le> j \<and> j < edges_query - 1 \<longrightarrow>
            (\<forall>k\<le>j. pair_ok intersect froms tos t j k))"
        using here by (metis Suc_eq_plus1 Suc_leI le_neq_implies_less Suc_leD)
      ultimately show ?thesis using step by simp
    qed
  qed
qed

lemma emit_loop_result:
  "\<forall>j<edges_query. rd b j = Some (t j) \<Longrightarrow> iter \<le> edges_query \<Longrightarrow>
   emit_loop b edges_query cnt iter out =
     Some (\<lambda>a. if cnt * edges_query + iter \<le> a \<and> a < cnt * edges_query + edges_query
               then t (a - cnt * edges_query) else out a)"
proof (induction b edges_query cnt iter out rule: emit_loop.induct)
  case (1 b edges_query cnt iter out)
  show ?case
  proof (cases "iter < edges_query")
    case False
    then show ?thesis by (subst emit_loop.simps) auto
  next
    case True
    then have r: "rd b iter = Some (t iter)" using "1.prems" by simp
    have "emit_loop b edges_query cnt iter out =
        emit_loop b edges_query cnt (iter + 1) (out(cnt * edges_query + iter := t iter))"
      using True r by (subst emit_loop.simps) simp
    also have "\<dots> = Some (\<lambda>a. if cnt * edges_query + (iter + 1) \<le> a \<and>
          a < cnt * edges_query + edges_query
        then t (a - cnt * edges_query) else (out(cnt * edges_query + iter := t iter)) a)"
      by (rule "1.IH" [OF True r "1.prems"(1)]) (use True in simp)
    also have "(\<lambda>a. if cnt * edges_query + (iter + 1) \<le> a \<and> a < cnt * edges_query + edges_query
        then t (a - cnt * edges_query) else (out(cnt * edges_query + iter := t iter)) a)
      = (\<lambda>a. if cnt * edges_query + iter \<le> a \<and> a < cnt * edges_query + edges_query
        then t (a - cnt * edges_query) else out a)"
      using True by (auto simp: fun_eq_iff)
    finally show ?thesis .
  qed
qed


lemma STRIDE_1: "STRIDE = 1" and thread_x_0: "thread_x = 0"
  by (simp_all add: STRIDE_def thread_x_def gridDim_x_def blockDim_x_def blockIdx_x_def
      threadIdx_x_def)

lemma those_map_Some: "those (map (Some \<circ> f) xs) = Some (map f xs)"
  by (induction xs) simp_all

lemma decode_init:
  assumes "1 \<le> edges_query" "edges_query \<le> 3"
  shows "\<exists>b. decode pos edges (edges_query - 1) x edge_id_init = Some b \<and> length b = 3 \<and>
             (\<forall>j<edges_query. rd b j = Some (cand pos edges (edges_query - 1) x j))"
proof -
  have "edges_query - 1 < length edge_id_init" using assms by (simp add: edge_id_init_def)
  from decode_cells [OF this, of pos edges x]
  obtain b where b: "decode pos edges (edges_query - 1) x edge_id_init = Some b"
    "length b = length edge_id_init"
    "\<forall>j\<le>edges_query - 1. b ! j = Some (cand pos edges (edges_query - 1) x j)"
    by blast
  have "\<forall>j<edges_query. rd b j = Some (cand pos edges (edges_query - 1) x j)"
    using b(2,3) assms by (auto simp: rd_def edge_id_init_def)
  then show ?thesis using b(1,2) by (simp add: edge_id_init_def)
qed

lemma Join_tuple_cand:
  assumes "1 \<le> edges_query" "edges_query \<le> 3"
  shows "Join_tuple edges_query pos edges x =
           Some (map (cand pos edges (edges_query - 1) x) [0..<edges_query])"
proof -
  from decode_init [OF assms, of pos edges x]
  obtain b where b: "decode pos edges (edges_query - 1) x edge_id_init = Some b" "length b = 3"
    "\<forall>j<edges_query. rd b j = Some (cand pos edges (edges_query - 1) x j)"
    by blast
  have "take edges_query b = map Some (map (cand pos edges (edges_query - 1) x) [0..<edges_query])"
    using b(2,3) assms by (intro nth_equalityI) (auto simp: rd_def)
  then show ?thesis using b(1) by (simp add: Join_tuple_def those_map_Some)
qed

lemma rule_breaks_iff: "rule_breaks c d froms tos old new \<longleftrightarrow> \<not> rule_satisfied c d froms tos old new"
  by (auto simp: rule_breaks_def rule_satisfied_def endpoint_demand_def)

lemma pair_ok_iff:
  "pair_ok intersect froms tos t iter edge \<longleftrightarrow>
     t (iter + 1) \<noteq> t edge \<and>
     rule_satisfied (intersect (rule_index (iter + 1) edge))
       (intersect (rule_index (iter + 1) edge + 1)) froms tos (t edge) (t (iter + 1))"
  by (simp add: pair_ok_def rule_breaks_iff rule_index_def)

lemma valid_match_pairs:
  "valid_match intersect froms tos (map t [0..<n]) \<longleftrightarrow>
     (\<forall>j. j < n - 1 \<longrightarrow> (\<forall>k\<le>j. pair_ok intersect froms tos t j k))"
proof
  assume v: "valid_match intersect froms tos (map t [0..<n])"
  show "\<forall>j. j < n - 1 \<longrightarrow> (\<forall>k\<le>j. pair_ok intersect froms tos t j k)"
  proof (intro allI impI)
    fix j k assume "j < n - 1" "k \<le> j"
    then have "j + 1 < n" "k < j + 1" by simp_all
    with v have "map t [0..<n] ! (j + 1) \<noteq> map t [0..<n] ! k \<and>
       rule_satisfied (intersect (rule_index (j + 1) k)) (intersect (rule_index (j + 1) k + 1))
        froms tos (map t [0..<n] ! k) (map t [0..<n] ! (j + 1))"
      unfolding valid_match_def by simp
    then show "pair_ok intersect froms tos t j k"
      using \<open>j + 1 < n\<close> \<open>k < j + 1\<close> by (simp add: pair_ok_iff)
  qed
next
  assume p: "\<forall>j. j < n - 1 \<longrightarrow> (\<forall>k\<le>j. pair_ok intersect froms tos t j k)"
  show "valid_match intersect froms tos (map t [0..<n])"
    unfolding valid_match_def
  proof (intro ballI)
    fix j k assume "j \<in> set [0..<length (map t [0..<n])]" and "k \<in> set [0..<j]"
    then have j: "j < length (map t [0..<n])" and k: "k < j" by simp_all
    then obtain i where i: "j = i + 1" by (cases j) simp_all
    with j k have "i < n - 1" "k \<le> i" by simp_all
    with p have "pair_ok intersect froms tos t i k" by blast
    then show "map t [0..<n] ! j \<noteq> map t [0..<n] ! k \<and>
       rule_satisfied (intersect (rule_index j k)) (intersect (rule_index j k + 1)) froms tos
        (map t [0..<n] ! k) (map t [0..<n] ! j)"
      using i j k by (simp add: pair_ok_iff)
  qed
qed

lemma Join_body_result:
  assumes "1 \<le> edges_query" "edges_query \<le> 3"
  shows "Join_body edges_query pos intersect froms tos edges x st =
     Some (if valid_match intersect froms tos (map (cand pos edges (edges_query - 1) x) [0..<edges_query])
           then record_match (map (cand pos edges (edges_query - 1) x) [0..<edges_query]) st
           else st)"
proof -
  let ?t = "cand pos edges (edges_query - 1) x"
  from decode_init [OF assms, of pos edges x]
  obtain b where b: "decode pos edges (edges_query - 1) x edge_id_init = Some b" "length b = 3"
    "\<forall>j<edges_query. rd b j = Some (?t j)"
    by blast
  from outer_loop_result [OF b(3), of 0 intersect froms tos]
  obtain r where r: "outer_loop intersect froms tos b edges_query 0 = Some r"
    "r = edges_query - 1 \<longleftrightarrow>
       (\<forall>j. j < edges_query - 1 \<longrightarrow> (\<forall>k\<le>j. pair_ok intersect froms tos ?t j k))"
    by auto
  have v: "r = edges_query - 1 \<longleftrightarrow> valid_match intersect froms tos (map ?t [0..<edges_query])"
    using r(2) by (simp add: valid_match_pairs)
  have e: "emit_loop b edges_query (counts st) 0 (output_buf st) =
      Some (output_buf (record_match (map ?t [0..<edges_query]) st))"
    using emit_loop_result [OF b(3), of 0 "counts st" "output_buf st"]
    by (auto simp: record_match_def fun_eq_iff)
  show ?thesis
  proof (cases "r = edges_query - 1")
    case True
    then show ?thesis using b(1) r(1) v e by (simp add: Join_body_def record_match_def)
  next
    case False
    then show ?thesis using b(1) r(1) v by (simp add: Join_body_def)
  qed
qed

lemma Join_loop_count:
  assumes body: "\<And>y s. y < sz \<Longrightarrow>
      Join_body edges_query pos intersect froms tos edges y s = Some (if V y then R y s else s)"
    and cnt: "\<And>y s. counts (R y s) = counts s + 1"
  shows "\<exists>st'. Join_loop edges_query pos intersect froms tos edges sz x st = Some st' \<and>
           counts st' = counts st + length (filter V [x..<sz])"
  using body
proof (induction edges_query pos intersect froms tos edges sz x st rule: Join_loop.induct)
  case (1 edges_query pos intersect froms tos edges sz x st)
  show ?case
  proof (cases "x < sz")
    case False
    then show ?thesis by (subst Join_loop.simps) simp
  next
    case True
    let ?s1 = "if V x then R x st else st"
    have b: "Join_body edges_query pos intersect froms tos edges x st = Some ?s1"
      using "1.prems" True by blast
    have step: "Join_loop edges_query pos intersect froms tos edges sz x st =
        Join_loop edges_query pos intersect froms tos edges sz (x + 1) ?s1"
      using True b by (subst Join_loop.simps) (simp add: STRIDE_1)
    from "1.IH" [OF True b "1.prems"]
    obtain st' where st': "Join_loop edges_query pos intersect froms tos edges sz (x + 1) ?s1 = Some st'"
      "counts st' = counts ?s1 + length (filter V [x + 1..<sz])"
      by (auto simp: STRIDE_1)
    have "[x..<sz] = x # [x + 1..<sz]" using True by (simp add: upt_conv_Cons)
    then have "counts ?s1 + length (filter V [x + 1..<sz]) = counts st + length (filter V [x..<sz])"
      using cnt by simp
    then show ?thesis using step st' by simp
  qed
qed


lemma decode_overflow: "3 \<le> k \<Longrightarrow> decode pos edges k x edge_id_init = None"
  by (cases k) (simp_all add: wr_def edge_id_init_def)

lemma Join_body_overflow: "3 < edges_query \<Longrightarrow>
    Join_body edges_query pos intersect froms tos edges x st = None"
  by (simp add: Join_body_def decode_overflow)

lemma valid_match_distinct: "valid_match intersect froms tos t \<Longrightarrow> distinct t"
  unfolding valid_match_def distinct_conv_nth
  by (metis atLeastLessThan_iff set_upt le0 nat_neq_iff)

lemma counts_record_match: "counts (record_match t st) = counts st + 1"
  by (simp add: record_match_def)

lemma size_loop_product:
  "1 \<le> edges_query \<Longrightarrow> i \<le> edges_query - 1 \<Longrightarrow>
   size_loop pos edges_query i (combination_space_size pos (Suc i) mod 2 ^ 64) =
     combination_space_size pos edges_query mod 2 ^ 64"
proof (induction "edges_query - 1 - i" arbitrary: i)
  case 0
  then have i: "i = edges_query - 1" by simp
  then have "Suc i = edges_query" using "0.prems" by simp
  then show ?case using i by (subst size_loop.simps) simp
next
  case (Suc n)
  then have lt: "i < edges_query - 1" by simp
  have d: "pos (i + 1) - pos i = seg_len pos (Suc i)" by (simp add: seg_len_def seg_lo_def)
  have "(combination_space_size pos (Suc i) mod 2 ^ 64 * (pos (i + 1) - pos i)) mod 2 ^ 64 =
      combination_space_size pos (Suc (Suc i)) mod 2 ^ 64"
    unfolding d by (simp add: mod_mult_left_eq)
  then have step: "size_loop pos edges_query i (combination_space_size pos (Suc i) mod 2 ^ 64) =
      size_loop pos edges_query (i + 1) (combination_space_size pos (Suc (i + 1)) mod 2 ^ 64)"
    using lt by (subst size_loop.simps) simp
  have "size_loop pos edges_query (i + 1) (combination_space_size pos (Suc (i + 1)) mod 2 ^ 64) =
      combination_space_size pos edges_query mod 2 ^ 64"
  proof (rule Suc.hyps(1))
    show "n = edges_query - 1 - (i + 1)" using Suc.hyps(2) by simp
    show "1 \<le> edges_query" by (rule Suc.prems(1))
    show "i + 1 \<le> edges_query - 1" using lt by simp
  qed
  with step show ?case by (simp only:)
qed

lemma Join_size_product:
  "1 \<le> edges_query \<Longrightarrow> Join_size pos edges_query = combination_space_size pos edges_query mod 2 ^ 64"
  using size_loop_product [of edges_query 0 pos]
  by (simp add: Join_size_def seg_len_def seg_lo_def)

text \<open>
  Claim C1, as amended. With one to three query edges (the capacity of the local buffer),
  an offset table that does not decrease, and a combination space (the product of the
  segment lengths) below \<open>2 ^ 64\<close>, the size the kernel computes is the size of the
  combination space. The thread that handles a tuple index \<open>x\<close> of the combination space
  decodes a tuple of \<open>edges_query\<close> data-edge ids, and accepts it (writes the ids to the
  block of the output buffer named by the counter and increments the counter) exactly
  when every pair of a later-placed and an earlier-placed query edge has distinct
  data-edge ids and satisfies its entry of the rule table; otherwise the state is left as
  it was. The kernel returns, and the counter has grown by the number of tuple indices of
  the combination space whose tuple is such a match.
\<close>

theorem Join_accepts_iff_valid_match:
  assumes "1 \<le> edges_query" and "edges_query \<le> 3" and "well_formed_pos pos edges_query"
    and "combination_space_size pos edges_query < 2 ^ 64"
  shows "Join_size pos edges_query = combination_space_size pos edges_query \<and>
         (\<forall>x<combination_space_size pos edges_query. \<forall>st. \<exists>t.
            Join_tuple edges_query pos edges x = Some t \<and> length t = edges_query \<and>
            Join_body edges_query pos intersect froms tos edges x st =
              Some (if valid_match intersect froms tos t then record_match t st else st)) \<and>
         (\<exists>st'. Join edges_data edges_query pos intersect froms tos edges st = Some st' \<and>
            counts st' = counts st +
              length (filter (\<lambda>x. valid_match intersect froms tos
                                (the (Join_tuple edges_query pos edges x)))
                        [0..<combination_space_size pos edges_query]))"
proof -
  let ?t = "\<lambda>x. map (cand pos edges (edges_query - 1) x) [0..<edges_query]"
  have sz: "Join_size pos edges_query = combination_space_size pos edges_query"
    using Join_size_product [OF assms(1), of pos] assms(4) by simp
  have tup: "Join_tuple edges_query pos edges x = Some (?t x)" for x
    by (rule Join_tuple_cand [OF assms(1,2)])
  have body: "Join_body edges_query pos intersect froms tos edges x s =
      Some (if valid_match intersect froms tos (?t x) then record_match (?t x) s else s)" for x s
    by (rule Join_body_result [OF assms(1,2)])
  from Join_loop_count [of "Join_size pos edges_query" edges_query pos intersect froms tos edges
      "\<lambda>x. valid_match intersect froms tos (?t x)" "\<lambda>x. record_match (?t x)" thread_x st]
  obtain st' where st': "Join_loop edges_query pos intersect froms tos edges
        (Join_size pos edges_query) thread_x st = Some st'"
    "counts st' = counts st +
       length (filter (\<lambda>x. valid_match intersect froms tos (?t x))
         [thread_x..<Join_size pos edges_query])"
    using body counts_record_match by blast
  have "Join edges_data edges_query pos intersect froms tos edges st = Some st'"
    using st'(1) by (simp add: Join_def)
  moreover have "counts st' = counts st +
      length (filter (\<lambda>x. valid_match intersect froms tos (the (Join_tuple edges_query pos edges x)))
        [0..<combination_space_size pos edges_query])"
    using st'(2) by (simp add: tup thread_x_0 sz)
  moreover have "\<forall>x<combination_space_size pos edges_query. \<forall>st. \<exists>t.
      Join_tuple edges_query pos edges x = Some t \<and> length t = edges_query \<and>
      Join_body edges_query pos intersect froms tos edges x st =
        Some (if valid_match intersect froms tos t then record_match t st else st)"
    using tup body by simp
  ultimately show ?thesis using sz by blast
qed

theorem Join_accepts_iff_valid_match_witness:
  "(1::nat) \<le> 2 \<and> (2::nat) \<le> 3 \<and> well_formed_pos ex_pos 2 \<and>
   combination_space_size ex_pos 2 < 2 ^ 64 \<and> combination_space_size ex_pos 2 = 4 \<and>
   Join_size ex_pos 2 = 4 \<and>
   Join_tuple 2 ex_pos ex_edges 0 = Some [0, 1] \<and>
   valid_match ex_intersect ex_froms ex_tos [0, 1] \<and>
   Join_tuple 2 ex_pos ex_edges 1 = Some [0, 2] \<and>
   \<not> valid_match ex_intersect ex_froms ex_tos [0, 2] \<and>
   map_option counts (Join 3 2 ex_pos ex_intersect ex_froms ex_tos ex_edges ex_state) = Some 2"
proof -
  have h: "(1::nat) \<le> 2" "(2::nat) \<le> 3" "well_formed_pos ex_pos 2" by code_simp+
  have c: "combination_space_size ex_pos 2 = 4" by code_simp
  have b: "combination_space_size ex_pos 2 < 2 ^ 64" unfolding c by simp
  have n: "length (filter (\<lambda>x. valid_match ex_intersect ex_froms ex_tos
                                (the (Join_tuple 2 ex_pos ex_edges x))) [0..<4]) = 2"
    by code_simp
  have e: "Join_tuple 2 ex_pos ex_edges 0 = Some [0, 1]"
    "valid_match ex_intersect ex_froms ex_tos [0, 1]"
    "Join_tuple 2 ex_pos ex_edges 1 = Some [0, 2]"
    "\<not> valid_match ex_intersect ex_froms ex_tos [0, 2]" by code_simp+
  from Join_accepts_iff_valid_match [OF h b, of ex_edges ex_intersect ex_froms ex_tos 3 ex_state]
  obtain st' where "Join_size ex_pos 2 = 4"
    "Join 3 2 ex_pos ex_intersect ex_froms ex_tos ex_edges ex_state = Some st'"
    "counts st' = counts ex_state + 2" unfolding c n by blast
  then show ?thesis using h b c e by (simp add: ex_state_def)
qed

text \<open>
  Claim C1 as stated fails when the product of the segment lengths does not fit 64 bits.
  With three segments of \<open>2 ^ 22\<close> candidates the product is \<open>2 ^ 66\<close> and the size the
  kernel computes is 0: the tuple of the index 0 is a match, but the kernel visits no
  index and leaves the counter at 0.
\<close>

theorem Join_overflow_counterexample:
  "(1::nat) \<le> 3 \<and> (3::nat) \<le> 3 \<and> well_formed_pos ovf_pos 3 \<and>
   (0::nat) < combination_space_size ovf_pos 3 \<and>
   Join_tuple 3 ovf_pos ovf_edges 0 = Some [0, 4194304, 8388608] \<and>
   valid_match ovf_intersect ovf_froms ovf_tos [0, 4194304, 8388608] \<and>
   Join_size ovf_pos 3 = 0 \<and>
   Join 12582912 3 ovf_pos ovf_intersect ovf_froms ovf_tos ovf_edges ex_state = Some ex_state \<and>
   counts ex_state = 0"
proof -
  have p: "ovf_pos 0 = 4194304" "ovf_pos (Suc 0) = 8388608" "ovf_pos (Suc (Suc 0)) = 12582912"
    by (simp_all add: ovf_pos_def mem_of_def)
  have w: "well_formed_pos ovf_pos 3"
    by (auto simp: well_formed_pos_def p less_Suc_eq numeral_2_eq_2)
  have c: "combination_space_size ovf_pos 3 = 2 ^ 66"
    by (simp add: numeral_3_eq_3 seg_len_def seg_lo_def p)
  have sz: "Join_size ovf_pos 3 = 0"
    using Join_size_product [of 3 ovf_pos] unfolding c by simp
  have t: "Join_tuple 3 ovf_pos ovf_edges 0 = Some [0, 4194304, 8388608]"
    by (simp add: Join_tuple_def numeral_2_eq_2 wr_def rd_def edge_id_init_def p ovf_edges_def)
  have v: "valid_match ovf_intersect ovf_froms ovf_tos [0, 4194304, 8388608]"
    by (auto simp: valid_match_def rule_satisfied_def endpoint_demand_def ovf_intersect_def
        ovf_froms_def ovf_tos_def less_Suc_eq numeral_3_eq_3 numeral_2_eq_2)
  have j: "Join 12582912 3 ovf_pos ovf_intersect ovf_froms ovf_tos ovf_edges ex_state = Some ex_state"
    unfolding Join_def sz by (subst Join_loop.simps) simp
  have "counts ex_state = 0" by (simp add: ex_state_def)
  then show ?thesis using w c t v sz j by simp
qed

text \<open>
  Claim C5. When the thread that handles the tuple index \<open>x\<close> accepts (it returns with
  the counter incremented), the \<open>edges_query\<close> ids of its tuple are the ids it wrote to
  the output block, and they are pairwise distinct.
\<close>

theorem Join_accepted_ids_distinct:
  assumes "1 \<le> edges_query"
    and "Join_body edges_query pos intersect froms tos edges x st = Some st'"
    and "counts st' = counts st + 1"
  shows "\<exists>t. Join_tuple edges_query pos edges x = Some t \<and> length t = edges_query \<and>
           (\<forall>j<edges_query. output_buf st' (counts st * edges_query + j) = t ! j) \<and>
           (\<forall>j<edges_query. \<forall>k<edges_query. j \<noteq> k \<longrightarrow> t ! j \<noteq> t ! k)"
proof -
  let ?t = "map (cand pos edges (edges_query - 1) x) [0..<edges_query]"
  have le: "edges_query \<le> 3"
  proof (rule ccontr)
    assume "\<not> edges_query \<le> 3"
    then have "Join_body edges_query pos intersect froms tos edges x st = None"
      by (simp add: Join_body_overflow)
    with assms(2) show False by simp
  qed
  have body: "Some st' = Some (if valid_match intersect froms tos ?t then record_match ?t st else st)"
    using Join_body_result [OF assms(1) le, of pos intersect froms tos edges x st] assms(2) by simp
  have v: "valid_match intersect froms tos ?t"
  proof (rule ccontr)
    assume "\<not> valid_match intersect froms tos ?t"
    with body have "st' = st" by simp
    with assms(3) show False by simp
  qed
  then have st': "st' = record_match ?t st" using body by simp
  have "distinct ?t" using v by (rule valid_match_distinct)
  then have "\<forall>j<edges_query. \<forall>k<edges_query. j \<noteq> k \<longrightarrow> ?t ! j \<noteq> ?t ! k"
    by (simp add: distinct_conv_nth)
  moreover have "\<forall>j<edges_query. output_buf st' (counts st * edges_query + j) = ?t ! j"
    by (simp add: st' record_match_def)
  moreover have "Join_tuple edges_query pos edges x = Some ?t"
    by (rule Join_tuple_cand [OF assms(1) le])
  ultimately show ?thesis by simp
qed

theorem Join_accepted_ids_distinct_witness:
  "(1::nat) \<le> 2 \<and>
   map_option counts (Join_body 2 ex_pos ex_intersect ex_froms ex_tos ex_edges 0 ex_state) =
     Some (counts ex_state + 1) \<and>
   (\<exists>t. Join_tuple 2 ex_pos ex_edges 0 = Some t \<and> length t = 2 \<and> t ! 0 \<noteq> t ! 1)"
proof -
  have h: "(1::nat) \<le> 2" by simp
  have c: "map_option counts (Join_body 2 ex_pos ex_intersect ex_froms ex_tos ex_edges 0 ex_state) =
     Some (counts ex_state + 1)" by code_simp
  then obtain st' where st':
    "Join_body 2 ex_pos ex_intersect ex_froms ex_tos ex_edges 0 ex_state = Some st'"
    "counts st' = counts ex_state + 1" by auto
  from Join_accepted_ids_distinct [OF h st']
  obtain t where "Join_tuple 2 ex_pos ex_edges 0 = Some t" "length t = 2"
    "\<forall>j<2. \<forall>k<2. j \<noteq> k \<longrightarrow> t ! j \<noteq> t ! k" by blast
  then have "Join_tuple 2 ex_pos ex_edges 0 = Some t \<and> length t = 2 \<and> t ! 0 \<noteq> t ! 1"
    by simp
  then show ?thesis using h c by blast
qed

text \<open>
  Claim C7. With one to three query edges no access of the kernel to its local buffer
  \<open>edge_id\<close> leaves the three cells (and no cell is read before it is written): neither
  the body of the loop nor the kernel faults. With more than three query edges the first
  write of the decoding loop, to the cell \<open>edges_query - 1\<close>, is outside the buffer, so
  the decoding faults for every tuple index, and the kernel faults as soon as the
  combination space is not empty.
\<close>

theorem edge_id_buffer_bounds:
  "(1 \<le> edges_query \<and> edges_query \<le> 3 \<longrightarrow>
      Join_body edges_query pos intersect froms tos edges x st \<noteq> None \<and>
      Join edges_data edges_query pos intersect froms tos edges st \<noteq> None) \<and>
   (3 < edges_query \<longrightarrow>
      wr edge_id_init (edges_query - 1) v = None \<and>
      decode pos edges (edges_query - 1) x edge_id_init = None \<and>
      Join_body edges_query pos intersect froms tos edges x st = None \<and>
      (0 < Join_size pos edges_query \<longrightarrow>
         Join edges_data edges_query pos intersect froms tos edges st = None))"
proof (intro conjI impI)
  assume a: "1 \<le> edges_query \<and> edges_query \<le> 3"
  show "Join_body edges_query pos intersect froms tos edges x st \<noteq> None"
    using Join_body_result [of edges_query pos intersect froms tos edges x st] a by simp
  have "\<exists>st'. Join_loop edges_query pos intersect froms tos edges (Join_size pos edges_query)
      thread_x st = Some st' \<and> counts st' = counts st +
      length (filter (\<lambda>x. valid_match intersect froms tos
        (map (cand pos edges (edges_query - 1) x) [0..<edges_query]))
        [thread_x..<Join_size pos edges_query])"
    by (rule Join_loop_count [where R = "\<lambda>x. record_match
        (map (cand pos edges (edges_query - 1) x) [0..<edges_query])"])
      (use a in \<open>simp_all add: Join_body_result counts_record_match\<close>)
  then show "Join edges_data edges_query pos intersect froms tos edges st \<noteq> None"
    by (auto simp: Join_def)
next
  assume b: "3 < edges_query"
  show "wr edge_id_init (edges_query - 1) v = None"
    using b by (simp add: wr_def edge_id_init_def)
  show "decode pos edges (edges_query - 1) x edge_id_init = None"
    using b by (simp add: decode_overflow)
  show "Join_body edges_query pos intersect froms tos edges x st = None"
    using b by (rule Join_body_overflow)
  assume "0 < Join_size pos edges_query"
  then show "Join edges_data edges_query pos intersect froms tos edges st = None"
    using b by (subst Join_def, subst Join_loop.simps) (simp add: thread_x_0 Join_body_overflow)
qed

theorem edge_id_buffer_bounds_witness:
  "(1::nat) \<le> 2 \<and> (2::nat) \<le> 3 \<and>
   Join_body 2 ex_pos ex_intersect ex_froms ex_tos ex_edges 0 ex_state \<noteq> None \<and>
   Join 3 2 ex_pos ex_intersect ex_froms ex_tos ex_edges ex_state \<noteq> None \<and>
   (3::nat) < 4 \<and>
   wr edge_id_init (4 - 1) 0 = None \<and>
   decode ex_pos ex_edges (4 - 1) 0 edge_id_init = None \<and>
   Join_body 4 ex_pos ex_intersect ex_froms ex_tos ex_edges 0 ex_state = None"
proof -
  have a: "(1::nat) \<le> 2 \<and> (2::nat) \<le> 3" by simp
  have b: "(3::nat) < 4" by simp
  have "Join_body 2 ex_pos ex_intersect ex_froms ex_tos ex_edges 0 ex_state \<noteq> None \<and>
      Join 3 2 ex_pos ex_intersect ex_froms ex_tos ex_edges ex_state \<noteq> None"
    using edge_id_buffer_bounds [of 2 ex_pos ex_intersect ex_froms ex_tos ex_edges 0 ex_state 3 0] a
    by blast
  moreover have "wr edge_id_init (4 - 1) 0 = None \<and>
      decode ex_pos ex_edges (4 - 1) 0 edge_id_init = None \<and>
      Join_body 4 ex_pos ex_intersect ex_froms ex_tos ex_edges 0 ex_state = None"
    using edge_id_buffer_bounds [of 4 ex_pos ex_intersect ex_froms ex_tos ex_edges 0 ex_state 3 0] b
    by blast
  ultimately show ?thesis using a b by blast
qed

lemma valid_match_single: "valid_match intersect froms tos [e]"
  by (simp add: valid_match_def)

lemma Join_body_single:
  "Join_body 1 pos intersect froms tos edges x st =
     Some \<lparr>counts = counts st + 1, output_buf = (output_buf st)(counts st := edges x)\<rparr>"
proof -
  have "Join_body 1 pos intersect froms tos edges x st = Some (record_match [edges x] st)"
    using Join_body_result [of 1 pos intersect froms tos edges x st]
    by (simp add: valid_match_single)
  moreover have "record_match [edges x] st =
      \<lparr>counts = counts st + 1, output_buf = (output_buf st)(counts st := edges x)\<rparr>"
    by (auto simp: record_match_def fun_eq_iff)
  ultimately show ?thesis by simp
qed

lemma Join_loop_single:
  "x \<le> sz \<Longrightarrow>
   \<exists>st'. Join_loop 1 pos intersect froms tos edges sz x \<lparr>counts = x, output_buf = out\<rparr> = Some st' \<and>
     counts st' = sz \<and>
     (\<forall>k. output_buf st' k = (if x \<le> k \<and> k < sz then edges k else out k))"
proof (induction "sz - x" arbitrary: x out)
  case 0
  then have "x = sz" by simp
  then show ?case by (subst Join_loop.simps) simp
next
  case (Suc n)
  then have lt: "x < sz" by simp
  have step: "Join_loop 1 pos intersect froms tos edges sz x \<lparr>counts = x, output_buf = out\<rparr> =
      Join_loop 1 pos intersect froms tos edges sz (x + 1)
        \<lparr>counts = x + 1, output_buf = out(x := edges x)\<rparr>"
    using lt by (subst Join_loop.simps) (simp add: Join_body_single STRIDE_1 del: One_nat_def)
  have "n = sz - (x + 1)" "x + 1 \<le> sz" using Suc.hyps(2) lt by simp_all
  from Suc.hyps(1) [OF this, of "out(x := edges x)"]
  obtain st' where st': "Join_loop 1 pos intersect froms tos edges sz (x + 1)
        \<lparr>counts = x + 1, output_buf = out(x := edges x)\<rparr> = Some st'"
    "counts st' = sz"
    "\<forall>k. output_buf st' k = (if x + 1 \<le> k \<and> k < sz then edges k else (out(x := edges x)) k)"
    by blast
  have "\<forall>k. output_buf st' k = (if x \<le> k \<and> k < sz then edges k else out k)"
    using st'(3) lt by auto
  then show ?case using step st'(1,2) by simp
qed

text \<open>
  Claim C6. With exactly one query edge every pass of the loop body accepts: it writes
  the candidate \<open>edges[x]\<close> to the output cell named by the counter and increments the
  counter. Started with the counter at 0 (and \<open>pos[0]\<close> within the range of the
  64-bit size), the kernel returns with the counter at \<open>pos[0]\<close> and
  \<open>output[k] = edges[k]\<close> for every \<open>k < pos[0]\<close>.
\<close>

theorem Join_single_edge:
  assumes "pos 0 < 2 ^ 64"
  shows "(\<forall>x st. Join_body 1 pos intersect froms tos edges x st =
            Some \<lparr>counts = counts st + 1, output_buf = (output_buf st)(counts st := edges x)\<rparr>) \<and>
         (\<exists>st'. Join edges_data 1 pos intersect froms tos edges \<lparr>counts = 0, output_buf = out\<rparr>
                   = Some st' \<and>
            counts st' = pos 0 \<and> (\<forall>k<pos 0. output_buf st' k = edges k))"
proof -
  have sz: "Join_size pos 1 = pos 0"
    using assms by (simp add: Join_size_def size_loop.simps)
  from Join_loop_single [of 0 "pos 0" pos intersect froms tos edges out]
  obtain st' where "Join_loop 1 pos intersect froms tos edges (pos 0) 0
        \<lparr>counts = 0, output_buf = out\<rparr> = Some st'"
    "counts st' = pos 0"
    "\<forall>k. output_buf st' k = (if 0 \<le> k \<and> k < pos 0 then edges k else out k)"
    by auto
  then have "Join edges_data 1 pos intersect froms tos edges \<lparr>counts = 0, output_buf = out\<rparr>
      = Some st' \<and> counts st' = pos 0 \<and> (\<forall>k<pos 0. output_buf st' k = edges k)"
    by (simp add: Join_def sz thread_x_0 del: One_nat_def)
  then show ?thesis using Join_body_single by blast
qed

theorem Join_single_edge_witness:
  "ex_pos 0 < 2 ^ 64 \<and>
   map_option counts (Join 3 1 ex_pos ex_intersect ex_froms ex_tos ex_edges ex_state) = Some 2 \<and>
   map_option (\<lambda>s. output_buf s 0) (Join 3 1 ex_pos ex_intersect ex_froms ex_tos ex_edges ex_state)
     = Some 0 \<and>
   map_option (\<lambda>s. output_buf s 1) (Join 3 1 ex_pos ex_intersect ex_froms ex_tos ex_edges ex_state)
     = Some 1"
proof -
  have p: "ex_pos 0 = 2" by (simp add: ex_pos_def mem_of_def)
  have e: "ex_edges 0 = 0" "ex_edges 1 = 1" by (simp_all add: ex_edges_def mem_of_def)
  have h: "ex_pos 0 < 2 ^ 64" by (simp add: p)
  from Join_single_edge [where pos = ex_pos and intersect = ex_intersect and froms = ex_froms
      and tos = ex_tos and edges = ex_edges and edges_data = 3 and out = "\<lambda>a. 0", OF h]
  obtain st' where "Join 3 1 ex_pos ex_intersect ex_froms ex_tos ex_edges ex_state = Some st'"
    "counts st' = 2" "\<forall>k<2. output_buf st' k = ex_edges k"
    unfolding p ex_state_def by blast
  then show ?thesis using h e by simp
qed

lemma encode_cong: "(\<And>j. j \<le> k \<Longrightarrow> p j = q j) \<Longrightarrow> encode pos k p = encode pos k q"
  by (induction k) simp_all

lemma encode_cand: "encode pos k (cand pos (\<lambda>i. i) k x) = x"
proof (induction k arbitrary: x)
  case 0
  show ?case by simp
next
  case (Suc k)
  let ?l = "pos (Suc k) - pos k"
  have "encode pos k (cand pos (\<lambda>i. i) (Suc k) x) = encode pos k (cand pos (\<lambda>i. i) k (x div ?l))"
    by (rule encode_cong) simp
  also have "\<dots> = x div ?l" by (rule Suc.IH)
  finally have a: "encode pos k (cand pos (\<lambda>i. i) (Suc k) x) = x div ?l" .
  have b: "cand pos (\<lambda>i. i) (Suc k) x (Suc k) = pos k + x mod ?l" by simp
  have c: "seg_len pos (Suc k) = ?l" "seg_lo pos (Suc k) = pos k"
    by (simp_all add: seg_len_def seg_lo_def)
  show ?case unfolding encode.simps a b c
    by (simp only: add_diff_cancel_left' div_mult_mod_eq)
qed

lemma cand_in_segment:
  "(\<And>i. i \<le> k \<Longrightarrow> 0 < seg_len pos i) \<Longrightarrow> x < combination_space_size pos (Suc k) \<Longrightarrow> j \<le> k \<Longrightarrow>
   seg_lo pos j \<le> cand pos (\<lambda>i. i) k x j \<and> cand pos (\<lambda>i. i) k x j < pos j"
proof (induction k arbitrary: x)
  case 0
  then show ?case by (simp add: seg_len_def seg_lo_def)
next
  case (Suc k)
  let ?l = "pos (Suc k) - pos k"
  have l: "0 < ?l" using Suc.prems(1) [of "Suc k"] by (simp add: seg_len_def seg_lo_def)
  show ?case
  proof (cases "j = Suc k")
    case True
    have "x mod ?l < ?l" using l by simp
    then have "pos k \<le> pos k + x mod ?l \<and> pos k + x mod ?l < pos (Suc k)" by linarith
    then show ?thesis using True by (simp add: seg_lo_def)
  next
    case False
    with Suc.prems(3) have jk: "j \<le> k" by simp
    have "x < combination_space_size pos (Suc k) * ?l"
      using Suc.prems(2) by (simp add: seg_len_def seg_lo_def)
    then have "x div ?l < combination_space_size pos (Suc k)"
      by (rule less_mult_imp_div_less)
    from Suc.IH [OF _ this jk] Suc.prems(1) False show ?thesis by simp
  qed
qed

text \<open>
  Claim C2. With one to three query edges, every segment of positive length, and a tuple
  index \<open>x\<close> below the product of the segment lengths, the decoding of the kernel
  (observed with the identity as candidate array, so that the tuple is the tuple of
  positions in the candidate array) returns a tuple of \<open>edges_query\<close> positions, each
  inside the segment of its query edge; re-encoding the tuple by multiplying back out by
  the segment lengths gives \<open>x\<close>, and no other index decodes to the same tuple.
\<close>

theorem Join_decode_bijection:
  assumes "1 \<le> edges_query" and "edges_query \<le> 3"
    and "\<forall>i<edges_query. 0 < seg_len pos i"
    and "x < combination_space_size pos edges_query"
  shows "\<exists>t. Join_tuple edges_query pos (\<lambda>i. i) x = Some t \<and> length t = edges_query \<and>
           (\<forall>j<edges_query. seg_lo pos j \<le> t ! j \<and> t ! j < pos j) \<and>
           encode pos (edges_query - 1) ((!) t) = x \<and>
           (\<forall>y. Join_tuple edges_query pos (\<lambda>i. i) y = Some t \<longrightarrow> y = x)"
proof -
  let ?t = "\<lambda>x. map (cand pos (\<lambda>i. i) (edges_query - 1) x) [0..<edges_query]"
  have tup: "Join_tuple edges_query pos (\<lambda>i. i) y = Some (?t y)" for y
    by (rule Join_tuple_cand [OF assms(1,2)])
  have enc: "encode pos (edges_query - 1) ((!) (?t y)) = y" for y
  proof -
    have "encode pos (edges_query - 1) ((!) (?t y)) =
        encode pos (edges_query - 1) (cand pos (\<lambda>i. i) (edges_query - 1) y)"
      by (rule encode_cong) (use assms(1) in simp)
    then show ?thesis by (simp add: encode_cand)
  qed
  have seg: "\<forall>j<edges_query. seg_lo pos j \<le> ?t x ! j \<and> ?t x ! j < pos j"
  proof (intro allI impI)
    fix j assume j: "j < edges_query"
    have "seg_lo pos j \<le> cand pos (\<lambda>i. i) (edges_query - 1) x j \<and>
        cand pos (\<lambda>i. i) (edges_query - 1) x j < pos j"
      by (rule cand_in_segment) (use assms j in auto)
    then show "seg_lo pos j \<le> ?t x ! j \<and> ?t x ! j < pos j" using j by simp
  qed
  have inj: "\<forall>y. Join_tuple edges_query pos (\<lambda>i. i) y = Some (?t x) \<longrightarrow> y = x"
  proof (intro allI impI)
    fix y assume "Join_tuple edges_query pos (\<lambda>i. i) y = Some (?t x)"
    then have "?t y = ?t x" unfolding tup option.inject .
    then have "encode pos (edges_query - 1) ((!) (?t y)) = encode pos (edges_query - 1) ((!) (?t x))"
      by (rule arg_cong [where f = "\<lambda>t. encode pos (edges_query - 1) ((!) t)"])
    then show "y = x" by (simp only: enc)
  qed
  show ?thesis using tup enc seg inj by (intro exI [of _ "?t x"]) simp
qed

theorem Join_decode_bijection_witness:
  "(1::nat) \<le> 2 \<and> (2::nat) \<le> 3 \<and> 0 < seg_len ex_pos 0 \<and> 0 < seg_len ex_pos 1 \<and>
   3 < combination_space_size ex_pos 2 \<and>
   Join_tuple 2 ex_pos (\<lambda>i. i) 3 = Some [1, 3] \<and>
   encode ex_pos (2 - 1) ((!) [1, 3]) = 3 \<and>
   Join_tuple 2 ex_pos (\<lambda>i. i) 2 \<noteq> Some [1, 3]"
proof -
  have h: "(1::nat) \<le> 2" "(2::nat) \<le> 3" by simp_all
  have s: "0 < seg_len ex_pos 0" "0 < seg_len ex_pos 1"
    by (simp_all add: seg_len_def seg_lo_def ex_pos_def mem_of_def)
  have sa: "\<forall>i<2. 0 < seg_len ex_pos i"
  proof (intro allI impI)
    fix i :: nat assume "i < 2"
    then have "i = 0 \<or> i = 1" by auto
    then show "0 < seg_len ex_pos i" using s by auto
  qed
  have c: "3 < combination_space_size ex_pos 2" by code_simp
  have t: "Join_tuple 2 ex_pos (\<lambda>i. i) 3 = Some [1, 3]" by code_simp
  from Join_decode_bijection [OF h sa c]
  obtain u where u: "Join_tuple 2 ex_pos (\<lambda>i. i) 3 = Some u"
    "encode ex_pos (2 - 1) ((!) u) = 3"
    "\<forall>y. Join_tuple 2 ex_pos (\<lambda>i. i) y = Some u \<longrightarrow> y = 3" by blast
  from u(1) t have "u = [1, 3]" by simp
  with u(2,3) have "encode ex_pos (2 - 1) ((!) [1, 3]) = 3"
    "Join_tuple 2 ex_pos (\<lambda>i. i) 2 \<noteq> Some [1, 3]" by auto
  then show ?thesis using h s c t by blast
qed

section \<open>Properties of the Update kernel\<close>

lemma Update_loop_result:
  "\<forall>y z. x \<le> y \<and> y \<le> z \<and> z < sz \<longrightarrow> tag E ind y \<le> tag E ind z \<Longrightarrow>
   \<exists>ind' pos'. Update_loop E sz x (ind, pos) = (ind', pos') \<and>
     (\<forall>y. ind' y = (if x \<le> y \<and> y < sz then ind y mod E else ind y)) \<and>
     (\<forall>y. x \<le> y \<and> y < sz \<and> boundary E sz ind y \<longrightarrow> pos' (tag E ind y) = y + 1) \<and>
     (\<forall>i. (\<forall>y. x \<le> y \<and> y < sz \<and> boundary E sz ind y \<longrightarrow> tag E ind y \<noteq> i) \<longrightarrow> pos' i = pos i)"
proof (induction "sz - x" arbitrary: x ind pos)
  case 0
  then have "\<not> x < sz" by simp
  then show ?case by (subst Update_loop.simps) auto
next
  case (Suc n)
  then have lt: "x < sz" by simp
  let ?ind1 = "ind(x := ind x mod E)"
  let ?pos1 = "if boundary E sz ind x then pos(tag E ind x := x + 1) else pos"
  have step: "Update_loop E sz x (ind, pos) = Update_loop E sz (x + 1) (?ind1, ?pos1)"
    using lt by (subst Update_loop.simps) (simp add: STRIDE_1 boundary_def tag_def)
  have tag1: "tag E ?ind1 y = tag E ind y" if "x + 1 \<le> y" for y
    using that by (simp add: tag_def)
  have bnd1: "boundary E sz ?ind1 y = boundary E sz ind y" if "x + 1 \<le> y" for y
    using that by (simp add: boundary_def)
  have sorted1: "\<forall>y z. x + 1 \<le> y \<and> y \<le> z \<and> z < sz \<longrightarrow> tag E ?ind1 y \<le> tag E ?ind1 z"
  proof (intro allI impI)
    fix y z assume a: "x + 1 \<le> y \<and> y \<le> z \<and> z < sz"
    then have "tag E ind y \<le> tag E ind z" using Suc.prems by simp
    then show "tag E ?ind1 y \<le> tag E ?ind1 z" using a tag1 by simp
  qed
  have "n = sz - (x + 1)" using Suc.hyps(2) by simp
  from Suc.hyps(1) [OF this sorted1, of ?pos1]
  obtain ind' pos' where r: "Update_loop E sz (x + 1) (?ind1, ?pos1) = (ind', pos')"
    and i1: "\<forall>y. ind' y = (if x + 1 \<le> y \<and> y < sz then ?ind1 y mod E else ?ind1 y)"
    and b1: "\<forall>y. x + 1 \<le> y \<and> y < sz \<and> boundary E sz ?ind1 y \<longrightarrow> pos' (tag E ?ind1 y) = y + 1"
    and k1: "\<forall>i. (\<forall>y. x + 1 \<le> y \<and> y < sz \<and> boundary E sz ?ind1 y \<longrightarrow> tag E ?ind1 y \<noteq> i)
                \<longrightarrow> pos' i = ?pos1 i"
    by blast
  have later: "tag E ind y \<noteq> tag E ind x"
    if "x + 1 \<le> y" "y < sz" "boundary E sz ind x" for y
  proof -
    from that have "x \<noteq> sz - 1" by simp
    with that(3) have "tag E ind x < tag E ind (x + 1)" by (simp add: boundary_def tag_def)
    moreover have "tag E ind (x + 1) \<le> tag E ind y" using Suc.prems that by simp
    ultimately show ?thesis by simp
  qed
  have A: "\<forall>y. ind' y = (if x \<le> y \<and> y < sz then ind y mod E else ind y)"
    using i1 lt by auto
  have B: "\<forall>y. x \<le> y \<and> y < sz \<and> boundary E sz ind y \<longrightarrow> pos' (tag E ind y) = y + 1"
  proof (intro allI impI)
    fix y assume a: "x \<le> y \<and> y < sz \<and> boundary E sz ind y"
    show "pos' (tag E ind y) = y + 1"
    proof (cases "y = x")
      case False
      with a have "x + 1 \<le> y" by simp
      then show ?thesis using b1 a tag1 bnd1 by simp
    next
      case True
      have "\<forall>z. x + 1 \<le> z \<and> z < sz \<and> boundary E sz ?ind1 z \<longrightarrow> tag E ?ind1 z \<noteq> tag E ind x"
        using later a True tag1 by simp
      then have "pos' (tag E ind x) = ?pos1 (tag E ind x)" using k1 by blast
      then show ?thesis using a True by simp
    qed
  qed
  have C: "\<forall>i. (\<forall>y. x \<le> y \<and> y < sz \<and> boundary E sz ind y \<longrightarrow> tag E ind y \<noteq> i) \<longrightarrow> pos' i = pos i"
  proof (intro allI impI)
    fix i assume a: "\<forall>y. x \<le> y \<and> y < sz \<and> boundary E sz ind y \<longrightarrow> tag E ind y \<noteq> i"
    then have "\<forall>y. x + 1 \<le> y \<and> y < sz \<and> boundary E sz ?ind1 y \<longrightarrow> tag E ?ind1 y \<noteq> i"
      using tag1 bnd1 by (metis Suc_eq_plus1 Suc_leD)
    then have "pos' i = ?pos1 i" using k1 by blast
    moreover have "?pos1 i = pos i" using a lt by auto
    ultimately show "pos' i = pos i" by simp
  qed
  show ?case using step r A B C by simp
qed

lemma last_index:
  "\<exists>y<n. P y \<Longrightarrow> \<exists>h<n. P h \<and> (\<forall>z<n. P z \<longrightarrow> z \<le> (h::nat))"
proof (induction n)
  case 0
  then show ?case by simp
next
  case (Suc n)
  show ?case
  proof (cases "P n")
    case True
    then show ?thesis by (intro exI [of _ n]) auto
  next
    case False
    with Suc.prems have "\<exists>y<n. P y" by (metis less_Suc_eq)
    from Suc.IH [OF this] obtain h where "h < n" "P h" "\<forall>z<n. P z \<longrightarrow> z \<le> h" by blast
    with False show ?thesis by (intro exI [of _ h]) (auto simp: less_Suc_eq)
  qed
qed


text \<open>
  Claim C3. Let the first \<open>pos[0]\<close> entries of the candidate array be sorted by tag,
  every query edge own at least one of them, and \<open>0 < edges_data\<close>. After
  \<^verbatim>\<open>Update\<close>, for every query edge \<open>i\<close>: \<open>pos[i]\<close> is the exclusive upper bound of the
  run of \<open>i\<close> (the entry before it has the tag \<open>i\<close>, and every entry with the tag \<open>i\<close>
  lies in \<open>[pos[i-1], pos[i])\<close>, with \<open>pos[-1] = 0\<close>); every entry at a position of
  \<open>[pos[i-1], pos[i])\<close> is its original value modulo \<open>edges_data\<close> and carried the
  tag \<open>i\<close>; and the table does not decrease.
\<close>

theorem Update_segment_invariant:
  assumes E: "0 < edges_data"
    and wt: "well_tagged edges_data edges_query indices (pos 0)"
    and upd: "Update indices pos edges_data = (indices', pos')"
  shows "(\<forall>i<edges_query. 0 < pos' i \<and> pos' i \<le> pos 0 \<and>
            tag edges_data indices (pos' i - 1) = i \<and>
            (\<forall>z<pos 0. tag edges_data indices z = i \<longrightarrow> seg_lo pos' i \<le> z \<and> z < pos' i)) \<and>
         (\<forall>i<edges_query. \<forall>y. seg_lo pos' i \<le> y \<and> y < pos' i \<longrightarrow>
            indices' y = indices y mod edges_data \<and> tag edges_data indices y = i) \<and>
         (\<forall>i j. i \<le> j \<and> j < edges_query \<longrightarrow> pos' i \<le> pos' j)"
proof -
  let ?n = "pos 0"
  let ?tag = "tag edges_data indices"
  have sorted: "\<forall>y z. y \<le> z \<and> z < pos 0 \<longrightarrow> ?tag y \<le> ?tag z"
  proof (intro allI impI)
    fix y z assume a: "y \<le> z \<and> z < pos 0"
    have "sorted (map ?tag [0..<pos 0])" using wt by (simp add: well_tagged_def)
    then have "map ?tag [0..<pos 0] ! y \<le> map ?tag [0..<pos 0] ! z"
      using a by (intro sorted_nth_mono) simp_all
    then show "?tag y \<le> ?tag z" using a by simp
  qed
  have owns: "\<forall>i<edges_query. \<exists>y<pos 0. ?tag y = i"
  proof (intro allI impI)
    fix i assume "i < edges_query"
    then have "i \<in> set [0..<edges_query]" by simp
    with wt have "\<exists>y\<in>set [0..<pos 0]. ?tag y = i" unfolding well_tagged_def by blast
    then obtain y where "y \<in> set [0..<pos 0]" "?tag y = i" ..
    then show "\<exists>y<pos 0. ?tag y = i" by (intro exI [of _ y]) simp
  qed
  have s0: "\<forall>y z. 0 \<le> y \<and> y \<le> z \<and> z < ?n \<longrightarrow> ?tag y \<le> ?tag z" using sorted by simp
  from Update_loop_result [OF s0, of pos]
  obtain i2 p2 where r: "Update_loop edges_data ?n 0 (indices, pos) = (i2, p2)"
    and A0: "\<forall>y. i2 y = (if 0 \<le> y \<and> y < ?n then indices y mod edges_data else indices y)"
    and B0: "\<forall>y. 0 \<le> y \<and> y < ?n \<and> boundary edges_data ?n indices y \<longrightarrow> p2 (?tag y) = y + 1"
    by blast
  have eq: "i2 = indices'" "p2 = pos'" using r upd by (simp_all add: Update_def thread_x_0)
  have A: "indices' y = indices y mod edges_data" if "y < ?n" for y
    using A0 that eq by simp
  have B: "pos' (?tag y) = y + 1" if "y < ?n" "boundary edges_data ?n indices y" for y
    using B0 that eq by simp
  have "\<forall>i. \<exists>h. i < edges_query \<longrightarrow> h < ?n \<and> ?tag h = i \<and> (\<forall>z<?n. ?tag z = i \<longrightarrow> z \<le> h)"
  proof
    fix i
    show "\<exists>h. i < edges_query \<longrightarrow> h < ?n \<and> ?tag h = i \<and> (\<forall>z<?n. ?tag z = i \<longrightarrow> z \<le> h)"
    proof (cases "i < edges_query")
      case True
      with owns have "\<exists>y<?n. ?tag y = i" by simp
      from last_index [of ?n "\<lambda>y. ?tag y = i", OF this] show ?thesis by blast
    next
      case False
      then show ?thesis by simp
    qed
  qed
  then have "\<exists>h. \<forall>i. i < edges_query \<longrightarrow>
      h i < ?n \<and> ?tag (h i) = i \<and> (\<forall>z<?n. ?tag z = i \<longrightarrow> z \<le> h i)"
    by (rule choice)
  then obtain h where h: "\<forall>i. i < edges_query \<longrightarrow>
      h i < ?n \<and> ?tag (h i) = i \<and> (\<forall>z<?n. ?tag z = i \<longrightarrow> z \<le> h i)" ..
  have hn: "h i < ?n" and ht: "?tag (h i) = i" if "i < edges_query" for i
    using h that by simp_all
  have hmax: "z \<le> h i" if "i < edges_query" "z < ?n" "?tag z = i" for i z
    using h that by simp
  have le_tag: "?tag y \<le> ?tag z" if "y \<le> z" "z < ?n" for y z
    using sorted that by simp
  have bnd: "boundary edges_data ?n indices (h i)" if i: "i < edges_query" for i
  proof (cases "h i = ?n - 1")
    case True
    then show ?thesis by (simp add: boundary_def)
  next
    case False
    with hn [OF i] have nx: "h i + 1 < ?n" by simp
    have "?tag (h i + 1) \<noteq> i"
    proof
      assume "?tag (h i + 1) = i"
      from hmax [OF i nx this] show False by simp
    qed
    moreover have "?tag (h i) \<le> ?tag (h i + 1)" using nx by (intro le_tag) simp_all
    ultimately have "?tag (h i) < ?tag (h i + 1)" using ht [OF i] by simp
    then show ?thesis by (simp add: boundary_def tag_def)
  qed
  have P: "pos' i = h i + 1" if i: "i < edges_query" for i
    using B [OF hn [OF i] bnd [OF i]] ht [OF i] by simp
  have strict: "h i < h j" if "i < j" "j < edges_query" for i j
  proof (rule ccontr)
    assume "\<not> h i < h j"
    then have "h j \<le> h i" by simp
    moreover have "h i < ?n" using hn that by simp
    ultimately have "?tag (h j) \<le> ?tag (h i)" by (rule le_tag)
    then show False using ht that by simp
  qed
  have lo: "seg_lo pos' i \<le> z" if i: "i < edges_query" and z: "z < ?n" "?tag z = i" for i z
  proof (cases "i = 0")
    case True
    then show ?thesis by (simp add: seg_lo_def)
  next
    case False
    then have i1: "i - 1 < edges_query" using i by simp
    have "\<not> z \<le> h (i - 1)"
    proof
      assume "z \<le> h (i - 1)"
      then have "?tag z \<le> ?tag (h (i - 1))" using hn [OF i1] by (intro le_tag)
      then show False using ht [OF i1] z(2) False by simp
    qed
    then show ?thesis using False P [OF i1] by (simp add: seg_lo_def)
  qed
  have run: "?tag y = i" if i: "i < edges_query" and y: "seg_lo pos' i \<le> y" "y < pos' i" for i y
  proof -
    have yh: "y \<le> h i" using y(2) P [OF i] by simp
    then have yn: "y < ?n" using hn [OF i] by simp
    have up: "?tag y \<le> i" using le_tag [OF yh hn [OF i]] ht [OF i] by simp
    show ?thesis
    proof (cases "i = 0")
      case True
      with up show ?thesis by simp
    next
      case False
      then have i1: "i - 1 < edges_query" using i by simp
      have hy: "h (i - 1) < y" using y(1) False P [OF i1] by (simp add: seg_lo_def)
      then have "?tag (h (i - 1)) \<le> ?tag y" using yn by (intro le_tag) simp_all
      then have low: "i - 1 \<le> ?tag y" using ht [OF i1] by simp
      have "?tag y \<noteq> i - 1"
      proof
        assume "?tag y = i - 1"
        from hmax [OF i1 yn this] hy show False by simp
      qed
      with low up show ?thesis by simp
    qed
  qed
  have 1: "\<forall>i<edges_query. 0 < pos' i \<and> pos' i \<le> pos 0 \<and>
            ?tag (pos' i - 1) = i \<and>
            (\<forall>z<pos 0. ?tag z = i \<longrightarrow> seg_lo pos' i \<le> z \<and> z < pos' i)"
  proof (intro allI impI conjI)
    fix i assume i: "i < edges_query"
    show "0 < pos' i" using P [OF i] by simp
    show "pos' i \<le> pos 0" using P [OF i] hn [OF i] by simp
    show "?tag (pos' i - 1) = i" using P [OF i] ht [OF i] by simp
    fix z assume z: "z < pos 0" "?tag z = i"
    show "seg_lo pos' i \<le> z" by (rule lo [OF i z])
    show "z < pos' i" using hmax [OF i z] P [OF i] by simp
  qed
  have 2: "\<forall>i<edges_query. \<forall>y. seg_lo pos' i \<le> y \<and> y < pos' i \<longrightarrow>
            indices' y = indices y mod edges_data \<and> ?tag y = i"
  proof (intro allI impI conjI)
    fix i y assume i: "i < edges_query" and y: "seg_lo pos' i \<le> y \<and> y < pos' i"
    then have "y < ?n" using P [OF i] hn [OF i] by simp
    then show "indices' y = indices y mod edges_data" by (rule A)
    show "?tag y = i" using run [OF i] y by simp
  qed
  have 3: "\<forall>i j. i \<le> j \<and> j < edges_query \<longrightarrow> pos' i \<le> pos' j"
  proof (intro allI impI)
    fix i j assume a: "i \<le> j \<and> j < edges_query"
    show "pos' i \<le> pos' j"
    proof (cases "i = j")
      case True
      then show ?thesis by simp
    next
      case False
      with a have "i < j" "j < edges_query" "i < edges_query" by simp_all
      then show ?thesis using strict [of i j] P by simp
    qed
  qed
  show ?thesis using 1 2 3 by blast
qed


theorem Update_segment_invariant_witness:
  "(0::nat) < 3 \<and> well_tagged 3 2 ex_indices (ex_pos0 0) \<and>
   snd (Update ex_indices ex_pos0 3) 0 = 2 \<and> snd (Update ex_indices ex_pos0 3) 1 = 4 \<and>
   map (fst (Update ex_indices ex_pos0 3)) [0..<4] = [0, 1, 1, 2] \<and>
   snd (Update ex_indices ex_pos0 3) 0 \<le> snd (Update ex_indices ex_pos0 3) 1 \<and>
   tag 3 ex_indices (snd (Update ex_indices ex_pos0 3) 1 - 1) = 1"
proof -
  have h: "(0::nat) < 3" "well_tagged 3 2 ex_indices (ex_pos0 0)" by code_simp+
  have u: "Update ex_indices ex_pos0 3 =
      (fst (Update ex_indices ex_pos0 3), snd (Update ex_indices ex_pos0 3))" by simp
  have e: "snd (Update ex_indices ex_pos0 3) 0 = 2" "snd (Update ex_indices ex_pos0 3) 1 = 4"
    "map (fst (Update ex_indices ex_pos0 3)) [0..<4] = [0, 1, 1, 2]" by code_simp+
  from Update_segment_invariant [OF h u]
  have "(\<forall>i<2. tag 3 ex_indices (snd (Update ex_indices ex_pos0 3) i - 1) = i) \<and>
      (\<forall>i j. i \<le> j \<and> j < 2 \<longrightarrow>
        snd (Update ex_indices ex_pos0 3) i \<le> snd (Update ex_indices ex_pos0 3) j)"
    by blast
  then have "tag 3 ex_indices (snd (Update ex_indices ex_pos0 3) 1 - 1) = 1 \<and>
      snd (Update ex_indices ex_pos0 3) 0 \<le> snd (Update ex_indices ex_pos0 3) 1"
    by simp
  then show ?thesis using h e by blast
qed

section \<open>Properties of the Label kernel\<close>

lemma Label_bound_zero:
  "d_query_row 0 = 0 \<Longrightarrow>
   Label froms_data tos_data froms_query tos_query d_c_set label d_query_row edges_data
     edges_query = label"
  by (simp add: Label_def thread_x_0 Label_loop.simps)

text \<open>
  Claim C4 does not hold of the code. \<^verbatim>\<open>Label\<close> bounds its loop by \<^verbatim>\<open>d_query_row[0]\<close>,
  the first row offset of the query graph, which is 0. At the input below there are two
  data edges and one query edge, and the data edge 0 is feasible for the query edge 0,
  yet the entry \<open>0 + 0 * (2 div 2)\<close> of the label array is 0 after the kernel.
\<close>

theorem Label_skips_feasible_data_edge:
  "exA_query_row 0 = 0 \<and> (0::nat) < 2 \<and> (0::nat) < 1 \<and>
   feasible exA_froms_data exA_tos_data exA_froms_query exA_tos_query exA_c_set 0 0 \<and>
   Label exA_froms_data exA_tos_data exA_froms_query exA_tos_query exA_c_set exA_label
     exA_query_row 2 1 (0 + 0 * (2 div 2)) = 0"
proof -
  have r: "exA_query_row 0 = 0" by (simp add: exA_query_row_def mem_of_def)
  have f: "feasible exA_froms_data exA_tos_data exA_froms_query exA_tos_query exA_c_set 0 0"
    by (simp add: feasible_def exA_froms_data_def exA_tos_data_def exA_froms_query_def
        exA_tos_query_def exA_c_set_def mem_of_def)
  have "Label exA_froms_data exA_tos_data exA_froms_query exA_tos_query exA_c_set exA_label
     exA_query_row 2 1 = exA_label"
    using r by (rule Label_bound_zero)
  then show ?thesis using r f by (simp add: exA_label_def)
qed

section \<open>Properties of the problem structure\<close>

lemma checked_append: "checked (xs @ ys) = checked xs @ checked ys"
  by (induction xs rule: checked.induct) simp_all

lemma slice_after_append: "slice_after (xs @ ys) ds = slice_after ys (slice_after xs ds)"
  by (induction xs ds rule: slice_after.induct) simp_all

lemma slice_after_New: "New_DataSlice \<in> set ss \<Longrightarrow> slice_after ss ds = Some DataSlice_default"
proof (induction ss arbitrary: ds rule: rev_induct)
  case Nil
  then show ?case by simp
next
  case (snoc s ss)
  show ?case
  proof (cases s)
    case New_DataSlice
    then show ?thesis by (simp add: slice_after_append)
  next
    case (Checked op)
    with snoc show ?thesis by (simp add: slice_after_append)
  next
    case (Unchecked op)
    with snoc show ?thesis by (simp add: slice_after_append)
  qed
qed

lemma checked_mem: "op \<in> set (checked ss) \<Longrightarrow> Checked op \<in> set ss"
  by (induction ss rule: checked.induct) auto

lemma run_stmts_all_ok:
  "\<forall>op\<in>set (checked ss). dev op = cudaSuccess \<Longrightarrow>
   run_stmts dev ss ds acc = (cudaSuccess, slice_after ss ds, acc @ ss)"
  by (induction dev ss ds acc rule: run_stmts.induct) simp_all

lemma run_stmts_fail_at:
  "n < length ss \<Longrightarrow> ss ! n = Checked op \<Longrightarrow> dev op \<noteq> cudaSuccess \<Longrightarrow>
   \<forall>q\<in>set (checked (take n ss)). dev q = cudaSuccess \<Longrightarrow>
   run_stmts dev ss ds acc = (dev op, slice_after (take (Suc n) ss) ds, acc @ take (Suc n) ss)"
proof (induction dev ss ds acc arbitrary: n rule: run_stmts.induct)
  case (1 dev ds performed)
  then show ?case by simp
next
  case (2 dev op' rest ds performed)
  show ?case
  proof (cases n)
    case 0
    with "2.prems" show ?thesis by simp
  next
    case (Suc m)
    with "2.prems" have ok: "\<not> dev op' \<noteq> cudaSuccess" by simp
    have "run_stmts dev rest ds (performed @ [Checked op']) =
        (dev op, slice_after (take (Suc m) rest) ds, (performed @ [Checked op']) @ take (Suc m) rest)"
      by (rule "2.IH" [OF ok]) (use "2.prems" Suc in simp_all)
    then show ?thesis using ok Suc by simp
  qed
next
  case (3 dev op' rest ds performed)
  show ?case
  proof (cases n)
    case 0
    with "3.prems" show ?thesis by simp
  next
    case (Suc m)
    have "run_stmts dev rest ds (performed @ [Unchecked op']) =
        (dev op, slice_after (take (Suc m) rest) ds, (performed @ [Unchecked op']) @ take (Suc m) rest)"
      by (rule "3.IH") (use "3.prems" Suc in simp_all)
    then show ?thesis using Suc by simp
  qed
next
  case (4 dev rest ds performed)
  show ?case
  proof (cases n)
    case 0
    with "4.prems" show ?thesis by simp
  next
    case (Suc m)
    have "run_stmts dev rest (Some DataSlice_default) (performed @ [New_DataSlice]) =
        (dev op, slice_after (take (Suc m) rest) (Some DataSlice_default),
         (performed @ [New_DataSlice]) @ take (Suc m) rest)"
      by (rule "4.IH") (use "4.prems" Suc in simp_all)
    then show ?thesis using Suc by simp
  qed
qed

lemma Init_stmts_tested:
  "s \<in> set (Init_stmts nodes_query edges_query nodes_data edges_data) \<Longrightarrow> op_of s = Some op \<Longrightarrow>
   is_alloc_or_transfer op \<Longrightarrow> s = Checked op"
  by (auto simp: Init_stmts_def)

lemma Init_stmts_checked:
  "op \<in> set (checked (Init_stmts nodes_query edges_query nodes_data edges_data)) \<Longrightarrow>
   is_alloc_or_transfer op \<or> op = cudaGetDevice"
  by (auto simp: Init_stmts_def)

lemma Init_stmts_New:
  "1 \<le> n \<Longrightarrow> New_DataSlice \<in> set (take (Suc n) (Init_stmts nodes_query edges_query nodes_data edges_data))"
proof -
  assume "1 \<le> n"
  then obtain m where "n = Suc m" by (cases n) simp_all
  then show ?thesis by (simp add: Init_stmts_def)
qed

lemma distinct_Init_stmts:
  "distinct (Init_stmts nodes_query edges_query nodes_data edges_data)"
  by (simp add: Init_stmts_def)


text \<open>
  Claim C9. Let \<^verbatim>\<open>num_gpus\<close> be 1 and \<open>ss\<close> the statements of \<^verbatim>\<open>Init\<close> in the order of
  the source. If the statement \<open>ss ! n\<close> is a device allocation or a transfer from the
  host to the device, it fails, and every tested operation before it succeeds, then
  \<^verbatim>\<open>Init\<close> returns its status; the statements performed are the statements up to it and
  no other, each once; and the fields of the data slice are as its constructor left
  them. If every allocation and transfer (and \<^verbatim>\<open>cudaGetDevice\<close>) succeeds, \<^verbatim>\<open>Init\<close>
  performs every statement, sets the fields of the data slice and returns
  \<^verbatim>\<open>cudaSuccess\<close>.
\<close>

theorem Init_returns_first_failure:
  assumes one: "num_gpus_arg = 1"
    and ss: "ss = Init_stmts (csr_nodes graph_query) (csr_edges graph_query)
                    (csr_nodes graph_data) (csr_edges graph_data)"
    and r: "Init dev sizeof_pointer sizeof_VertexId graph_query graph_data h_vertex_cover
              num_gpus_arg streams_given p = (out, p', performed)"
  shows "(\<forall>n op. n < length ss \<and> op_of (ss ! n) = Some op \<and> is_alloc_or_transfer op \<and>
              dev op \<noteq> cudaSuccess \<and>
              (\<forall>q\<in>set (checked (take n ss)). dev q = cudaSuccess) \<longrightarrow>
            out = Returns (dev op) \<and> performed = Init_base @ take (Suc n) ss \<and>
            sm_data_slice p' = Some DataSlice_default) \<and>
         ((\<forall>s\<in>set ss. \<forall>op. op_of s = Some op \<and> (is_alloc_or_transfer op \<or> op = cudaGetDevice)
              \<longrightarrow> dev op = cudaSuccess) \<longrightarrow>
            out = Returns cudaSuccess \<and> performed = Init_base @ ss \<and>
            sm_data_slice p' =
              Some \<lparr>ds_nodes_data = csr_nodes graph_data, ds_nodes_query = csr_nodes graph_query,
                    ds_edges_data = csr_edges graph_data, ds_edges_query = csr_edges graph_query,
                    ds_vertex_cover_size = sizeof_pointer div sizeof_VertexId\<rparr>) \<and>
         distinct ss"
proof (intro conjI allI impI)
  show "distinct ss" unfolding ss by (rule distinct_Init_stmts)
  {
    assume a: "\<forall>s\<in>set ss. \<forall>op. op_of s = Some op \<and> (is_alloc_or_transfer op \<or> op = cudaGetDevice)
        \<longrightarrow> dev op = cudaSuccess"
    have "\<forall>op\<in>set (checked ss). dev op = cudaSuccess"
    proof
      fix op assume op: "op \<in> set (checked ss)"
      then have "Checked op \<in> set ss" by (rule checked_mem)
      moreover have "is_alloc_or_transfer op \<or> op = cudaGetDevice"
        using op unfolding ss by (rule Init_stmts_checked)
      ultimately show "dev op = cudaSuccess" using a by (metis op_of.simps(1))
    qed
    then have "run_stmts dev ss None Init_base = (cudaSuccess, slice_after ss None, Init_base @ ss)"
      by (rule run_stmts_all_ok)
    then have res: "out = Returns cudaSuccess \<and> performed = Init_base @ ss \<and>
        sm_data_slice p' =
          Some \<lparr>ds_nodes_data = csr_nodes graph_data, ds_nodes_query = csr_nodes graph_query,
                ds_edges_data = csr_edges graph_data, ds_edges_query = csr_edges graph_query,
                ds_vertex_cover_size = sizeof_pointer div sizeof_VertexId\<rparr>"
      using r one unfolding ss by (auto simp: Init_def Let_def)
    show "out = Returns cudaSuccess" using res by simp
    show "performed = Init_base @ ss" using res by simp
    show "sm_data_slice p' =
        Some \<lparr>ds_nodes_data = csr_nodes graph_data, ds_nodes_query = csr_nodes graph_query,
              ds_edges_data = csr_edges graph_data, ds_edges_query = csr_edges graph_query,
              ds_vertex_cover_size = sizeof_pointer div sizeof_VertexId\<rparr>"
      using res by simp
  }
  fix n op
  assume a: "n < length ss \<and> op_of (ss ! n) = Some op \<and> is_alloc_or_transfer op \<and>
      dev op \<noteq> cudaSuccess \<and> (\<forall>q\<in>set (checked (take n ss)). dev q = cudaSuccess)"
  then have mem: "ss ! n \<in> set ss" by simp
  have tested: "ss ! n = Checked op"
  proof -
    from mem have "ss ! n \<in> set (Init_stmts (csr_nodes graph_query) (csr_edges graph_query)
        (csr_nodes graph_data) (csr_edges graph_data))" by (simp add: ss)
    from Init_stmts_tested [OF this] a show ?thesis by blast
  qed
  have n1: "1 \<le> n"
  proof (rule ccontr)
    assume "\<not> 1 \<le> n"
    then have "n = 0" by simp
    then have "ss ! n = Checked cudaGetDevice" by (simp add: ss Init_stmts_def)
    with tested a show False by simp
  qed
  have new: "slice_after (take (Suc n) ss) None = Some DataSlice_default"
    unfolding ss by (intro slice_after_New Init_stmts_New n1)
  have "run_stmts dev ss None Init_base =
      (dev op, slice_after (take (Suc n) ss) None, Init_base @ take (Suc n) ss)"
    using a tested by (intro run_stmts_fail_at) simp_all
  then have res: "out = Returns (dev op) \<and> performed = Init_base @ take (Suc n) ss \<and>
      sm_data_slice p' = Some DataSlice_default"
    using r one a new unfolding ss by (auto simp: Init_def Let_def)
  show "out = Returns (dev op)" using res by simp
  show "performed = Init_base @ take (Suc n) ss" using res by simp
  show "sm_data_slice p' = Some DataSlice_default" using res by simp
qed

lemma Init_surj:
  "Init dev a b gq gd h n sg p =
     (fst (Init dev a b gq gd h n sg p), fst (snd (Init dev a b gq gd h n sg p)),
      snd (snd (Init dev a b gq gd h n sg p)))"
  by simp

theorem Init_returns_first_failure_witness:
  "Init_stmts (csr_nodes ex_query) (csr_edges ex_query) (csr_nodes ex_data) (csr_edges ex_data) ! 13
     = Checked (Allocate arr_d_c_set 6) \<and>
   is_alloc_or_transfer (Allocate arr_d_c_set 6) \<and>
   dev_out_of_memory (Allocate arr_d_c_set 6) = 2 \<and>
   fst (Init dev_out_of_memory 8 4 ex_query ex_data [0] 1 False SMProblem_default) = Returns 2 \<and>
   last (snd (snd (Init dev_out_of_memory 8 4 ex_query ex_data [0] 1 False SMProblem_default))) =
     Checked (Allocate arr_d_c_set 6) \<and>
   sm_data_slice (fst (snd (Init dev_out_of_memory 8 4 ex_query ex_data [0] 1 False
     SMProblem_default))) = Some DataSlice_default \<and>
   Init_stmts (csr_nodes ex_query) (csr_edges ex_query) (csr_nodes ex_data) (csr_edges ex_data) ! 24
     = Checked (Move_HOST_DEVICE arr_d_query_row) \<and>
   is_alloc_or_transfer (Move_HOST_DEVICE arr_d_query_row) \<and>
   dev_copy_fails (Move_HOST_DEVICE arr_d_query_row) = 11 \<and>
   fst (Init dev_copy_fails 8 4 ex_query ex_data [0] 1 False SMProblem_default) = Returns 11 \<and>
   last (snd (snd (Init dev_copy_fails 8 4 ex_query ex_data [0] 1 False SMProblem_default))) =
     Checked (Move_HOST_DEVICE arr_d_query_row)"
proof -
  let ?ss = "Init_stmts (csr_nodes ex_query) (csr_edges ex_query) (csr_nodes ex_data)
     (csr_edges ex_data)"
  let ?r = "Init dev_out_of_memory 8 4 ex_query ex_data [0] 1 False SMProblem_default"
  let ?r' = "Init dev_copy_fails 8 4 ex_query ex_data [0] 1 False SMProblem_default"
  have k: "?ss ! 13 = Checked (Allocate arr_d_c_set 6)"
    "?ss ! 24 = Checked (Move_HOST_DEVICE arr_d_query_row)"
    by (simp_all add: Init_stmts_def ex_query_def ex_data_def)
  have d: "dev_out_of_memory (Allocate arr_d_c_set 6) = 2"
    "dev_copy_fails (Move_HOST_DEVICE arr_d_query_row) = 11"
    by (simp_all add: dev_out_of_memory_def dev_copy_fails_def)
  have a: "13 < length ?ss \<and> op_of (?ss ! 13) = Some (Allocate arr_d_c_set 6) \<and>
      is_alloc_or_transfer (Allocate arr_d_c_set 6) \<and>
      dev_out_of_memory (Allocate arr_d_c_set 6) \<noteq> cudaSuccess \<and>
      (\<forall>q\<in>set (checked (take 13 ?ss)). dev_out_of_memory q = cudaSuccess)"
    by (simp add: Init_stmts_def ex_query_def ex_data_def dev_out_of_memory_def cudaSuccess_def)
  have a': "24 < length ?ss \<and> op_of (?ss ! 24) = Some (Move_HOST_DEVICE arr_d_query_row) \<and>
      is_alloc_or_transfer (Move_HOST_DEVICE arr_d_query_row) \<and>
      dev_copy_fails (Move_HOST_DEVICE arr_d_query_row) \<noteq> cudaSuccess \<and>
      (\<forall>q\<in>set (checked (take 24 ?ss)). dev_copy_fails q = cudaSuccess)"
    by (simp add: Init_stmts_def ex_query_def ex_data_def dev_copy_fails_def cudaSuccess_def)
  have l: "last (Init_base @ take (Suc 13) ?ss) = Checked (Allocate arr_d_c_set 6)"
    "last (Init_base @ take (Suc 24) ?ss) = Checked (Move_HOST_DEVICE arr_d_query_row)"
    by (simp_all add: Init_stmts_def ex_query_def ex_data_def)
  from Init_returns_first_failure [where dev = dev_out_of_memory and sizeof_pointer = 8
      and sizeof_VertexId = 4 and graph_query = ex_query and graph_data = ex_data
      and h_vertex_cover = "[0]" and streams_given = False and p = SMProblem_default,
      OF refl refl Init_surj] a
  have "fst ?r = Returns (dev_out_of_memory (Allocate arr_d_c_set 6)) \<and>
      snd (snd ?r) = Init_base @ take (Suc 13) ?ss \<and>
      sm_data_slice (fst (snd ?r)) = Some DataSlice_default"
    by blast
  moreover from Init_returns_first_failure [where dev = dev_copy_fails and sizeof_pointer = 8
      and sizeof_VertexId = 4 and graph_query = ex_query and graph_data = ex_data
      and h_vertex_cover = "[0]" and streams_given = False and p = SMProblem_default,
      OF refl refl Init_surj] a'
  have "fst ?r' = Returns (dev_copy_fails (Move_HOST_DEVICE arr_d_query_row)) \<and>
      snd (snd ?r') = Init_base @ take (Suc 24) ?ss"
    by blast
  ultimately show ?thesis using k d l by simp
qed

text \<open>
  Claim C8, as amended. \<^verbatim>\<open>Init\<close> assigns to \<^verbatim>\<open>vertex_cover_size\<close> the size of a pointer
  divided by the size of \<^verbatim>\<open>VertexId\<close>, whatever the vertex-cover set passed by the
  caller is.
\<close>

theorem Init_vertex_cover_size:
  "sm_vertex_cover_size (fst (snd (Init dev sizeof_pointer sizeof_VertexId graph_query graph_data
      h_vertex_cover num_gpus_arg streams_given p))) = sizeof_pointer div sizeof_VertexId \<and>
   sm_vertex_cover_size (fst (snd (Init dev sizeof_pointer sizeof_VertexId graph_query graph_data
      h_vertex_cover num_gpus_arg streams_given p))) =
   sm_vertex_cover_size (fst (snd (Init dev sizeof_pointer sizeof_VertexId graph_query graph_data
      h_vertex_cover' num_gpus_arg streams_given p)))"
  by (simp add: Init_def Let_def split: prod.splits)

text \<open>
  Claim C8 as stated fails: with pointers of 8 bytes and a \<^verbatim>\<open>VertexId\<close> of 4 bytes the
  value is 2, not 1.
\<close>

theorem Init_vertex_cover_size_counterexample:
  "sm_vertex_cover_size (fst (snd (Init dev_ok 8 4 ex_query ex_data [0] 1 False SMProblem_default)))
     = 2 \<and>
   sm_vertex_cover_size (fst (snd (Init dev_ok 8 4 ex_query ex_data [0] 1 False SMProblem_default)))
     \<noteq> 1"
  by (simp add: Init_def Let_def split: prod.splits)

text \<open>
  Claim C10. With \<^verbatim>\<open>num_gpus == 1\<close> (and the device selected and the transfer done
  without error) \<^verbatim>\<open>Extract\<close> returns \<^verbatim>\<open>cudaSuccess\<close>, the host buffer holds the device
  contents of \<^verbatim>\<open>d_c_set\<close>, and \<^verbatim>\<open>num_matches\<close> is 0, nothing else of the problem
  structure being changed. With \<^verbatim>\<open>num_gpus != 1\<close> it returns \<^verbatim>\<open>cudaSuccess\<close> and leaves
  the problem structure and the host buffer as they were.
\<close>

theorem Extract_effects:
  "(sm_num_gpus p = 1 \<and> dev SetDevice = cudaSuccess \<and>
      dev (Move_DEVICE_HOST arr_d_c_set) = cudaSuccess \<longrightarrow>
      Extract dev p h_c_set = (cudaSuccess, p\<lparr>sm_num_matches := 0\<rparr>, sm_d_c_set p)) \<and>
   (sm_num_gpus p \<noteq> 1 \<longrightarrow> Extract dev p h_c_set = (cudaSuccess, p, h_c_set))"
  by (simp add: Extract_def)

theorem Extract_effects_witness:
  "sm_num_gpus ex_problem = 1 \<and> dev_ok SetDevice = cudaSuccess \<and>
   dev_ok (Move_DEVICE_HOST arr_d_c_set) = cudaSuccess \<and>
   sm_num_matches ex_problem = 5 \<and>
   Extract dev_ok ex_problem [False, False] =
     (cudaSuccess, ex_problem\<lparr>sm_num_matches := 0\<rparr>, [True, False]) \<and>
   sm_num_gpus (ex_problem\<lparr>sm_num_gpus := 2\<rparr>) \<noteq> 1 \<and>
   Extract dev_ok (ex_problem\<lparr>sm_num_gpus := 2\<rparr>) [False, False] =
     (cudaSuccess, ex_problem\<lparr>sm_num_gpus := 2\<rparr>, [False, False])"
proof -
  have h: "sm_num_gpus ex_problem = 1" "dev_ok SetDevice = cudaSuccess"
    "dev_ok (Move_DEVICE_HOST arr_d_c_set) = cudaSuccess" "sm_num_matches ex_problem = 5"
    "sm_d_c_set ex_problem = [True, False]"
    "sm_num_gpus (ex_problem\<lparr>sm_num_gpus := 2\<rparr>) \<noteq> 1"
    by (simp_all add: ex_problem_def dev_ok_def)
  have "Extract dev_ok ex_problem [False, False] =
      (cudaSuccess, ex_problem\<lparr>sm_num_matches := 0\<rparr>, sm_d_c_set ex_problem)"
    using Extract_effects [of ex_problem dev_ok "[False, False]"] h(1-3) by blast
  moreover have "Extract dev_ok (ex_problem\<lparr>sm_num_gpus := 2\<rparr>) [False, False] =
      (cudaSuccess, ex_problem\<lparr>sm_num_gpus := 2\<rparr>, [False, False])"
    using Extract_effects [of "ex_problem\<lparr>sm_num_gpus := 2\<rparr>" dev_ok "[False, False]"] h(6)
    by blast
  ultimately show ?thesis using h by simp
qed

end
